theory Spec2Isabelle
  imports Main "HOL-Library.Sublist" "HOL-Library.AList"
begin

text \<open>
  A shallow embedding of the two utility classes of Agent Laboratory,
  \<open>utils/prompt_manager.py\<close> (\<open>PromptManager\<close>) and \<open>utils/directory_manager.py\<close>
  (\<open>DirectoryManager\<close>), and what holds of them. The definitions come first, in the
  order of the source: the string operations of Python they rest on, the prompt
  manager with the regular expressions it hands to \<open>re\<close>, then the directory manager over
  a model of the file system. The properties follow, one section for each operation.
  An exception is a value: an operation that may raise returns an error beside its
  results, and every \<open>try\<close> of the source is a case distinction on it.
\<close>

section \<open>Python strings\<close>

text \<open>
  A Python \<open>str\<close> is a sequence of code points. The texts of this development are
  sequences of code points below 256 (ISO 8859-1): a \<^typ>\<open>char\<close> stands for the code
  point \<open>of_char c\<close>, and \<open>length\<close> counts code points as Python's \<open>len\<close> does.
\<close>

abbreviation LF :: char where "LF \<equiv> CHR 0x0A"
abbreviation CR :: char where "CR \<equiv> CHR 0x0D"

text \<open>\<open>str.isspace\<close> on one code point, which is also what \<open>\s\<close> of a \<open>str\<close> pattern
  and \<open>str.split()\<close>, \<open>str.strip()\<close> without arguments test: TAB, LF, VT, FF, CR,
  FS, GS, RS, US, SPACE, NEL and NBSP.\<close>

definition is_space :: "char \<Rightarrow> bool" where
  "is_space c = (let n = (of_char c :: nat) in
     (9 \<le> n \<and> n \<le> 13) \<or> (28 \<le> n \<and> n \<le> 32) \<or> n = 133 \<or> n = 160)"

text \<open>\<open>str.isalnum\<close> on one code point: the ASCII digits and letters, and in the upper
  half the letters, superscript digits and vulgar fractions of ISO 8859-1.\<close>

definition is_alnum :: "char \<Rightarrow> bool" where
  "is_alnum c = (let n = (of_char c :: nat) in
     (48 \<le> n \<and> n \<le> 57) \<or> (65 \<le> n \<and> n \<le> 90) \<or> (97 \<le> n \<and> n \<le> 122) \<or>
     n = 170 \<or> n = 178 \<or> n = 179 \<or> n = 181 \<or> n = 185 \<or> n = 186 \<or>
     (188 \<le> n \<and> n \<le> 190) \<or> (192 \<le> n \<and> n \<le> 214) \<or> (216 \<le> n \<and> n \<le> 246) \<or>
     (248 \<le> n \<and> n \<le> 255))"

text \<open>The class \<open>\w\<close> of a \<open>str\<close> pattern: alphanumeric or the underscore.\<close>

definition is_word :: "char \<Rightarrow> bool" where
  "is_word c = (is_alnum c \<or> c = CHR ''_'')"

text \<open>\<open>s.strip()\<close>: leading and trailing whitespace removed.\<close>

definition strip :: "string \<Rightarrow> string" where
  "strip s = rev (dropWhile is_space (rev (dropWhile is_space s)))"

text \<open>\<open>s.split()\<close>: the maximal runs of non-whitespace, in order. \<open>w\<close> is the run
  being read.\<close>

fun split_acc :: "string \<Rightarrow> string \<Rightarrow> string list" where
  "split_acc w [] = (if w = [] then [] else [w])"
| "split_acc w (c # cs) =
     (if is_space c then (if w = [] then split_acc [] cs else w # split_acc [] cs)
      else split_acc (w @ [c]) cs)"

definition split :: "string \<Rightarrow> string list" where
  "split s = split_acc [] s"

text \<open>\<open>sep.join(xs)\<close>.\<close>

fun join :: "string \<Rightarrow> string list \<Rightarrow> string" where
  "join sep [] = []"
| "join sep [x] = x"
| "join sep (x # y # ys) = x @ sep @ join sep (y # ys)"

text \<open>\<open>sub in s\<close> for strings: \<open>sub\<close> occurs in \<open>s\<close> as a contiguous run.\<close>

fun startswith :: "string \<Rightarrow> string \<Rightarrow> bool" where
  "startswith s [] = True"
| "startswith [] (p # ps) = False"
| "startswith (c # cs) (p # ps) = (c = p \<and> startswith cs ps)"

fun contains :: "string \<Rightarrow> string \<Rightarrow> bool" where
  "contains [] sub = (sub = [])"
| "contains (c # cs) sub = (startswith (c # cs) sub \<or> contains cs sub)"

text \<open>\<open>s.count(c)\<close> for a one-character \<open>c\<close>.\<close>

definition count :: "string \<Rightarrow> char \<Rightarrow> nat" where
  "count s c = length (filter (\<lambda>x. x = c) s)"

text \<open>\<open>s.splitlines()\<close>: a line ends at LF, VT, FF, FS, GS, RS, NEL, at CR, and at
  CR LF taken as one boundary; the text after the last boundary is a line only when it
  is not empty.\<close>

definition is_linebreak :: "char \<Rightarrow> bool" where
  "is_linebreak c = (let n = (of_char c :: nat) in
     (10 \<le> n \<and> n \<le> 12) \<or> (28 \<le> n \<and> n \<le> 30) \<or> n = 133)"

fun splitlines_acc :: "string \<Rightarrow> string \<Rightarrow> string list" where
  "splitlines_acc cur [] = (if cur = [] then [] else [cur])"
| "splitlines_acc cur (c # cs) =
     (if c = CR then
        (case cs of
           [] \<Rightarrow> [cur]
         | d # ds \<Rightarrow> if d = LF then cur # splitlines_acc [] ds
                     else cur # splitlines_acc [] cs)
      else if is_linebreak c then cur # splitlines_acc [] cs
      else splitlines_acc (cur @ [c]) cs)"

definition splitlines :: "string \<Rightarrow> string list" where
  "splitlines s = splitlines_acc [] s"

text \<open>\<open>s[:m]\<close> for a Python integer \<open>m\<close>: a negative \<open>m\<close> counts from the end, and
  the bounds are clipped to the string.\<close>

definition slice_to :: "string \<Rightarrow> int \<Rightarrow> string" where
  "slice_to s m = (if 0 \<le> m then take (nat m) s else take (length s - nat (- m)) s)"


section \<open>PromptManager\<close>

subsection \<open>clean\_search\_query\<close>

text \<open>\<open>re.sub(r'[^\w\s-]', '', query)\<close> deletes every character that is not in the
  class: a substitution of a one-character pattern by the empty string keeps exactly
  the characters the pattern does not match.\<close>

definition special :: "char \<Rightarrow> bool" where
  "special c = (\<not> (is_word c \<or> is_space c \<or> c = CHR ''-''))"

definition clean_search_query :: "string \<Rightarrow> string" where
  "clean_search_query query =
     (let query = filter (\<lambda>c. \<not> special c) query;
          query = join '' '' (split query)
      in query)"

subsection \<open>format\_feedback\<close>

definition format_feedback :: "string \<Rightarrow> int \<Rightarrow> string" where
  "format_feedback feedback max_length =
     (let feedback = (if int (length feedback) > max_length
                      then slice_to feedback max_length @ ''...'' else feedback)
      in strip feedback)"

subsection \<open>validate\_prompt\<close>

text \<open>\<open>re.search(r'<[^>]+>', prompt)\<close> finds a match exactly when some \<open><\<close> is followed
  by a character other than \<open>>\<close> and, later, by a \<open>>\<close>: the negated class also matches
  line breaks, and the greedy \<open>+\<close> gives back nothing it needs, because the run it
  reads stops at the first \<open>>\<close>.\<close>

definition placeholder_here :: "string \<Rightarrow> bool" where
  "placeholder_here s =
     (case s of [] \<Rightarrow> False | c # cs \<Rightarrow> c \<noteq> CHR ''>'' \<and> CHR ''>'' \<in> set cs)"

fun has_placeholder :: "string \<Rightarrow> bool" where
  "has_placeholder [] = False"
| "has_placeholder (c # cs) = ((c = CHR ''<'' \<and> placeholder_here cs) \<or> has_placeholder cs)"

definition validate_prompt :: "string \<Rightarrow> string list" where
  "validate_prompt prompt =
     (let issues = [];
          issues = (if count prompt (CHR 0x22) mod 2 \<noteq> 0
                    then issues @ [''Mismatched quotes''] else issues);
          issues = (if contains prompt [CR, LF] \<and> contains prompt [LF]
                    then issues @ [''Mixed line endings''] else issues);
          issues = (if list_ex (\<lambda>line. length line > 120) (splitlines prompt)
                    then issues @ [''Lines exceed recommended length''] else issues);
          issues = (if has_placeholder prompt
                    then issues @ [''Unreplaced placeholders found''] else issues)
      in issues)"


subsection \<open>Regular expressions\<close>

text \<open>
  \<open>extract_code_block\<close> and \<open>extract_command\<close> build a pattern around a caller's string
  and hand it to \<open>re.search\<close>. The model covers the part of the pattern language these
  patterns are written in: literal characters, \<open>.\<close>, the escapes \<open>\n\<close> and \<open>\w\<close>,
  capturing groups \<open>(...)\<close>, non-capturing groups \<open>(?:...)\<close>, the repeats \<open>*\<close> on a
  one-character item and \<open>?\<close> on any item, and their lazy forms \<open>*?\<close> and \<open>??\<close>. A
  call has one of three outcomes: it returns a value, it raises an exception, or the
  pattern uses a construct outside this part (a character set, \<open>+\<close>, \<open>{\<close>, \<open>|\<close>,
  \<open>^\<close>, \<open>$\<close>, another escape or group extension, \<open>*\<close> on a group), about which the
  model says nothing.
\<close>

abbreviation BSL :: char where "BSL \<equiv> CHR 0x5C"
abbreviation BQ :: char where "BQ \<equiv> CHR 0x60"

text \<open>The parsed pattern: a sequence of items. \<open>Star greedy a\<close> repeats a one-character
  item, \<open>Opt greedy body\<close> is \<open>?\<close> applied to an item (the content of a non-capturing
  group is repeated as it is), \<open>Group n body\<close> is the capturing group number \<open>n\<close>.\<close>

datatype atom = Lit char | AnyChar | WordChar

datatype item =
    Atom atom
  | Star bool atom
  | Opt bool "item list"
  | Group nat "item list"
  | NGroup "item list"

text \<open>The errors of the pattern compiler that this part of the language can produce:
  \<open>missing ), unterminated subpattern\<close>, \<open>unbalanced parenthesis\<close>,
  \<open>nothing to repeat\<close>, \<open>multiple repeat\<close>, \<open>bad escape (end of pattern)\<close>.\<close>

datatype re_error =
    MissingParen | UnbalancedParen | NothingToRepeat | MultipleRepeat | BadEscapeEnd

datatype exn = ReError re_error | IndexError

datatype 'a outcome = Returns 'a | Raises exn | Unmodelled

text \<open>The parser reads the pattern from left to right, as \<open>sre_parse\<close> does, and raises
  at the first error it meets. The items of the enclosing sequences wait on a stack,
  each with the kind of the group that was opened after them: its number, or \<open>None\<close> for
  a non-capturing group. A group gets its number when its parenthesis opens.\<close>

datatype frame = Frame "nat option" "item list"

definition close_group :: "nat option \<Rightarrow> item list \<Rightarrow> item" where
  "close_group kind body = (case kind of None \<Rightarrow> NGroup body | Some n \<Rightarrow> Group n body)"

text \<open>A repeat applies to the last item of the current sequence: there must be one, and
  it must not be a repeat itself. Both are checked before the suffix of the repeat is
  read.\<close>

definition repeat :: "char \<Rightarrow> bool \<Rightarrow> item list \<Rightarrow> (item list) outcome" where
  "repeat q greedy items =
     (if items = [] then Raises (ReError NothingToRepeat)
      else case last items of
             Star g a \<Rightarrow> Raises (ReError MultipleRepeat)
           | Opt g b \<Rightarrow> Raises (ReError MultipleRepeat)
           | Atom a \<Rightarrow>
               Returns (butlast items @
                 [if q = CHR ''*'' then Star greedy a else Opt greedy [Atom a]])
           | Group n b \<Rightarrow>
               if q = CHR ''*'' then Unmodelled
               else Returns (butlast items @ [Opt greedy [Group n b]])
           | NGroup b \<Rightarrow>
               if q = CHR ''*'' then Unmodelled
               else Returns (butlast items @ [Opt greedy b]))"

text \<open>After a repeat, \<open>?\<close> makes it lazy; \<open>+\<close> makes it possessive in recent versions
  of Python and is an error in older ones, so it is left outside.\<close>

fun parse :: "string \<Rightarrow> frame list \<Rightarrow> item list \<Rightarrow> nat \<Rightarrow> (item list \<times> nat) outcome" where
  "parse [] stack items groups =
     (if stack = [] then Returns (items, groups) else Raises (ReError MissingParen))"
| "parse (c # cs) stack items groups =
     (if c = BSL then
        (case cs of
           [] \<Rightarrow> Raises (ReError BadEscapeEnd)
         | e # rest \<Rightarrow>
             if e = CHR ''n'' then parse rest stack (items @ [Atom (Lit LF)]) groups
             else if e = CHR ''w'' then parse rest stack (items @ [Atom WordChar]) groups
             else Unmodelled)
      else if c = CHR ''('' then
        (case cs of
           [] \<Rightarrow> parse cs (Frame (Some (Suc groups)) items # stack) [] (Suc groups)
         | e # rest \<Rightarrow>
             if e = CHR ''?'' then
               (case rest of
                  [] \<Rightarrow> Unmodelled
                | f # rest' \<Rightarrow>
                    if f = CHR '':'' then parse rest' (Frame None items # stack) [] groups
                    else Unmodelled)
             else parse cs (Frame (Some (Suc groups)) items # stack) [] (Suc groups))
      else if c = CHR '')'' then
        (case stack of
           [] \<Rightarrow> Raises (ReError UnbalancedParen)
         | Frame kind outer # stack' \<Rightarrow>
             parse cs stack' (outer @ [close_group kind items]) groups)
      else if c = CHR ''*'' \<or> c = CHR ''?'' then
        (case cs of
           [] \<Rightarrow> (case repeat c True items of
                    Returns items' \<Rightarrow> parse cs stack items' groups
                  | Raises x \<Rightarrow> Raises x
                  | Unmodelled \<Rightarrow> Unmodelled)
         | e # rest \<Rightarrow>
             if e = CHR ''?'' then
               (case repeat c False items of
                  Returns items' \<Rightarrow> parse rest stack items' groups
                | Raises x \<Rightarrow> Raises x
                | Unmodelled \<Rightarrow> Unmodelled)
             else if e = CHR ''+'' then
               (case repeat c True items of
                  Returns items' \<Rightarrow> Unmodelled
                | Raises x \<Rightarrow> Raises x
                | Unmodelled \<Rightarrow> Unmodelled)
             else
               (case repeat c True items of
                  Returns items' \<Rightarrow> parse cs stack items' groups
                | Raises x \<Rightarrow> Raises x
                | Unmodelled \<Rightarrow> Unmodelled))
      else if c = CHR ''.'' then parse cs stack (items @ [Atom AnyChar]) groups
      else if c \<in> set ''[{+^$|'' then Unmodelled
      else parse cs stack (items @ [Atom (Lit c)]) groups)"

definition compile :: "string \<Rightarrow> (item list \<times> nat) outcome" where
  "compile pattern = parse pattern [] [] 0"

text \<open>The matcher tries the alternatives in the order of the backtracking engine and
  returns the first that lets the rest of the pattern match; \<open>k\<close> is what remains to be
  matched after the current item. A greedy repeat tries the longest run first, a lazy one
  the shortest. The groups map a group number to the text it matched.\<close>

fun matches_atom :: "bool \<Rightarrow> atom \<Rightarrow> char \<Rightarrow> bool" where
  "matches_atom dotall (Lit x) c = (c = x)"
| "matches_atom dotall AnyChar c = (dotall \<or> c \<noteq> LF)"
| "matches_atom dotall WordChar c = is_word c"

fun star_greedy :: "bool \<Rightarrow> atom \<Rightarrow> string \<Rightarrow> (string \<Rightarrow> 'r option) \<Rightarrow> 'r option" where
  "star_greedy dotall a [] k = k []"
| "star_greedy dotall a (c # cs) k =
     (if matches_atom dotall a c
      then (case star_greedy dotall a cs k of Some r \<Rightarrow> Some r | None \<Rightarrow> k (c # cs))
      else k (c # cs))"

fun star_lazy :: "bool \<Rightarrow> atom \<Rightarrow> string \<Rightarrow> (string \<Rightarrow> 'r option) \<Rightarrow> 'r option" where
  "star_lazy dotall a [] k = k []"
| "star_lazy dotall a (c # cs) k =
     (case k (c # cs) of
        Some r \<Rightarrow> Some r
      | None \<Rightarrow> if matches_atom dotall a c then star_lazy dotall a cs k else None)"

type_synonym groups = "nat \<rightharpoonup> string"

definition consumed :: "string \<Rightarrow> string \<Rightarrow> string" where
  "consumed s s' = take (length s - length s') s"

fun run ::
  "bool \<Rightarrow> item list \<Rightarrow> string \<Rightarrow> groups \<Rightarrow> (string \<Rightarrow> groups \<Rightarrow> 'r option) \<Rightarrow> 'r option" where
  "run dotall [] s g k = k s g"
| "run dotall (Atom a # r) s g k =
     (case s of
        [] \<Rightarrow> None
      | c # cs \<Rightarrow> if matches_atom dotall a c then run dotall r cs g k else None)"
| "run dotall (Star greedy a # r) s g k =
     (if greedy then star_greedy dotall a s (\<lambda>s'. run dotall r s' g k)
      else star_lazy dotall a s (\<lambda>s'. run dotall r s' g k))"
| "run dotall (Opt greedy b # r) s g k =
     (if greedy
      then (case run dotall b s g (\<lambda>s' g'. run dotall r s' g' k) of
              Some x \<Rightarrow> Some x
            | None \<Rightarrow> run dotall r s g k)
      else (case run dotall r s g k of
              Some x \<Rightarrow> Some x
            | None \<Rightarrow> run dotall b s g (\<lambda>s' g'. run dotall r s' g' k)))"
| "run dotall (Group n b # r) s g k =
     run dotall b s g (\<lambda>s' g'. run dotall r s' (g'(n \<mapsto> consumed s s')) k)"
| "run dotall (NGroup b # r) s g k =
     run dotall b s g (\<lambda>s' g'. run dotall r s' g' k)"

text \<open>\<open>re.search\<close>: the match at the leftmost position where there is one; the end of
  the text is a position too.\<close>

definition match_at :: "bool \<Rightarrow> item list \<Rightarrow> string \<Rightarrow> groups option" where
  "match_at dotall re s = run dotall re s Map.empty (\<lambda>s' g. Some g)"

fun search :: "bool \<Rightarrow> item list \<Rightarrow> string \<Rightarrow> groups option" where
  "search dotall re [] = match_at dotall re []"
| "search dotall re (c # cs) =
     (case match_at dotall re (c # cs) of
        Some g \<Rightarrow> Some g
      | None \<Rightarrow> search dotall re cs)"

text \<open>\<open>m = re.search(pattern, text, re.DOTALL)\<close> followed by
  \<open>m.group(1) if m else None\<close>. \<open>group(1)\<close> is absent when group 1 took no part in the
  match, and raises \<open>IndexError\<close> when the pattern has no group.\<close>

definition re_search_group1 :: "string \<Rightarrow> string \<Rightarrow> (string option) outcome" where
  "re_search_group1 pattern text =
     (case compile pattern of
        Raises x \<Rightarrow> Raises x
      | Unmodelled \<Rightarrow> Unmodelled
      | Returns (re, groups) \<Rightarrow>
          (case search True re text of
             None \<Rightarrow> Returns None
           | Some g \<Rightarrow> if groups < 1 then Raises IndexError else Returns (g 1)))"

subsection \<open>extract\_code\_block and extract\_command\<close>

text \<open>The patterns are raw strings: \<open>\n\<close> in them is a backslash and the letter \<open>n\<close>.
  \<open>str.format\<close> puts the caller's string in the place of the braces, unescaped; a
  language that is \<open>None\<close> or empty is replaced by \<open>\w*\<close>.\<close>

definition fence :: string where "fence = [BQ, BQ, BQ]"

definition code_block_pattern :: "string option \<Rightarrow> string" where
  "code_block_pattern language =
     fence @ ''(?:''
       @ (case language of
            None \<Rightarrow> [BSL, CHR ''w'', CHR ''*'']
          | Some l \<Rightarrow> if l = [] then [BSL, CHR ''w'', CHR ''*''] else l)
       @ '')?'' @ [BSL, CHR ''n''] @ ''(.*?)'' @ [BSL, CHR ''n''] @ fence"

definition extract_code_block :: "string \<Rightarrow> string option \<Rightarrow> (string option) outcome" where
  "extract_code_block text language = re_search_group1 (code_block_pattern language) text"

definition command_pattern :: "string \<Rightarrow> string" where
  "command_pattern command =
     fence @ command @ [BSL, CHR ''n''] @ ''(.*?)'' @ [BSL, CHR ''n''] @ fence"

definition extract_command :: "string \<Rightarrow> string \<Rightarrow> (string option) outcome" where
  "extract_command text command = re_search_group1 (command_pattern command) text"

text \<open>The characters with a meaning of their own in a pattern. A language tag is plain
  when it has none of them and does not start with a line feed: the pattern then asks
  for the tag itself.\<close>

definition metachar :: "char \<Rightarrow> bool" where
  "metachar c \<longleftrightarrow> c \<in> set (BSL # ''()*?.[{+^$|'')"

definition plain_language :: "string option \<Rightarrow> bool" where
  "plain_language language =
     (case language of
        None \<Rightarrow> True
      | Some l \<Rightarrow> (\<forall>c\<in>set l. \<not> metachar c) \<and> (l \<noteq> [] \<longrightarrow> hd l \<noteq> LF))"

text \<open>The tags a fence may carry: without a language any run of word characters, with a
  language the language itself or nothing.\<close>

definition tag_allowed :: "string option \<Rightarrow> string \<Rightarrow> bool" where
  "tag_allowed language tag =
     (case language of
        None \<Rightarrow> (\<forall>c\<in>set tag. is_word c)
      | Some l \<Rightarrow> if l = [] then (\<forall>c\<in>set tag. is_word c) else tag = l \<or> tag = [])"

text \<open>\<open>text\<close> holds a fenced block after \<open>pre\<close>: the fence, the tag, a line feed, the
  body, a line feed and the closing fence.\<close>

definition fenced_block ::
  "string option \<Rightarrow> string \<Rightarrow> string \<Rightarrow> string \<Rightarrow> string \<Rightarrow> string \<Rightarrow> bool" where
  "fenced_block language text pre tag body post \<longleftrightarrow>
     text = pre @ fence @ tag @ [LF] @ body @ [LF] @ fence @ post \<and> tag_allowed language tag"

text \<open>The parsed patterns of \<open>extract_code_block\<close>, and what their parts do to a text:
  \<open>tail_re\<close> is the pattern from the first line feed on, \<open>skip\<close> passes the optional tag,
  \<open>body_scan\<close> reads the body up to the first closing fence.\<close>

definition tail_re :: "item list" where
  "tail_re = [Atom (Lit LF), Group 1 [Star False AnyChar], Atom (Lit LF), Atom (Lit BQ),
    Atom (Lit BQ), Atom (Lit BQ)]"

definition opt_re :: "string option \<Rightarrow> item list" where
  "opt_re language =
     (case language of
        None \<Rightarrow> [Star True WordChar]
      | Some l \<Rightarrow> if l = [] then [Star True WordChar] else map (\<lambda>c. Atom (Lit c)) l)"

definition fence_re :: "string option \<Rightarrow> item list" where
  "fence_re language =
     Atom (Lit BQ) # Atom (Lit BQ) # Atom (Lit BQ) # Opt True (opt_re language) # tail_re"

definition skip :: "string option \<Rightarrow> string \<Rightarrow> string" where
  "skip language s =
     (case language of
        None \<Rightarrow> dropWhile is_word s
      | Some l \<Rightarrow> if l = [] then dropWhile is_word s
                  else if prefix l s then drop (length l) s else s)"

definition closing :: string where "closing = LF # fence"

definition closes :: "string \<Rightarrow> bool" where
  "closes s \<longleftrightarrow> (\<exists>post. s = closing @ post)"

definition body_scan :: "string \<Rightarrow> groups option" where
  "body_scan b = star_lazy True AnyChar b
       (\<lambda>s'. if closes s' then Some [1 \<mapsto> consumed b s'] else None)"

definition block_at :: "string option \<Rightarrow> string \<Rightarrow> string \<Rightarrow> bool" where
  "block_at language s body \<longleftrightarrow>
     (\<exists>tag post. s = fence @ tag @ [LF] @ body @ [LF] @ fence @ post \<and> tag_allowed language tag)"

text \<open>The text of the example: a fenced block tagged \<open>python\<close> between two words.\<close>

definition example_text :: string where
  "example_text = ''text '' @ fence @ ''python'' @ [LF] @ ''print(1)'' @ [LF] @ fence @ '' more''"


section \<open>DirectoryManager\<close>

subsection \<open>The file system\<close>

text \<open>
  The file system is a tree. A node is a regular file, a directory, or something that
  is neither (a named pipe, a socket, a device), for which both \<open>is_file\<close> and
  \<open>is_dir\<close> answer no. A directory carries what its owner and mode mean for the
  calling process, which is taken to be unprivileged: whether the process owns it (only
  then may it change the mode), and whether the mode lets the process read it (list its
  entries), write it (add and remove entries) and search it (look a name up in it). Its
  entries are kept in the order in which the directory is listed. A path is the list of
  names leading from the root to a node. Symbolic links are not part of the model: what
  is proved below is about trees made of these three kinds of nodes.
\<close>

type_synonym path = "string list"

record perms =
  readable :: bool
  writable :: bool
  searchable :: bool

abbreviation rwx :: perms where
  "rwx \<equiv> \<lparr>readable = True, writable = True, searchable = True\<rparr>"


datatype node = File | Other | Dir bool perms "(string \<times> node) list"

datatype os_error = ENOENT | ENOTDIR | EACCES | EEXIST | EPERM | EISDIR | EBUSY

text \<open>\<open>os.stat\<close>: the node at a path, following the names from the root. Looking a name
  up in a directory needs search permission on that directory, and nothing else; the
  node found is returned whatever its own mode.\<close>

fun walk :: "path \<Rightarrow> node \<Rightarrow> os_error + node" where
  "walk [] n = Inr n"
| "walk (x # xs) (Dir own md es) =
     (if \<not> searchable md then Inl EACCES
      else case map_of es x of None \<Rightarrow> Inl ENOENT | Some c \<Rightarrow> walk xs c)"
| "walk (x # xs) File = Inl ENOTDIR"
| "walk (x # xs) Other = Inl ENOTDIR"

text \<open>\<open>put p v\<close> replaces the node at the existing path \<open>p\<close> by \<open>v\<close>, removes it when
  \<open>v\<close> is \<open>None\<close>, and adds the entry when only the last name of \<open>p\<close> is missing.\<close>

fun set_entry :: "string \<Rightarrow> node option \<Rightarrow> (string \<times> node) list \<Rightarrow> (string \<times> node) list" where
  "set_entry x v [] = (case v of None \<Rightarrow> [] | Some m \<Rightarrow> [(x, m)])"
| "set_entry x v ((n, c) # es) =
     (if n = x then (case v of None \<Rightarrow> es | Some m \<Rightarrow> (n, m) # es)
      else (n, c) # set_entry x v es)"

fun put :: "path \<Rightarrow> node option \<Rightarrow> node \<Rightarrow> node" where
  "put [] v n = (case v of None \<Rightarrow> n | Some m \<Rightarrow> m)"
| "put [x] v (Dir own md es) = Dir own md (set_entry x v es)"
| "put (x # y # ys) v (Dir own md es) =
     (case map_of es x of
        None \<Rightarrow> Dir own md es
      | Some c \<Rightarrow> Dir own md (set_entry x (Some (put (y # ys) v c)) es))"
| "put (x # xs) v File = File"
| "put (x # xs) v Other = Other"

text \<open>The loop of \<open>shutil.rmtree\<close> over the entries of a directory it has opened, whose
  mode is \<open>md\<close>. An entry that is a directory is examined and opened through the
  directory that holds it (\<open>lstat\<close> and \<open>open\<close> relative to the descriptor, which need
  search permission there, and read permission on the entry), emptied by the same loop
  and removed with \<open>rmdir\<close>; any other entry is removed with \<open>unlink\<close>. Both removals
  need write and search permission on the directory that holds the entry, not on the
  entry. The first error stops the walk; what was removed before stays removed, and the
  entries left are returned with the error.\<close>

fun rm_entries :: "perms \<Rightarrow> (string \<times> node) list \<Rightarrow> (string \<times> node) list \<times> os_error option" where
  "rm_entries md [] = ([], None)"
| "rm_entries md ((n, Dir own md' cs) # es) =
     (if \<not> searchable md then ((n, Dir own md' cs) # es, Some EACCES)
      else if \<not> readable md' then ((n, Dir own md' cs) # es, Some EACCES)
      else case rm_entries md' cs of
             (cs', Some e) \<Rightarrow> ((n, Dir own md' cs') # es, Some e)
           | (cs', None) \<Rightarrow>
               if \<not> writable md then ((n, Dir own md' cs') # es, Some EACCES)
               else rm_entries md es)"
| "rm_entries md ((n, File) # es) =
     (if \<not> (writable md \<and> searchable md) then ((n, File) # es, Some EACCES)
      else rm_entries md es)"
| "rm_entries md ((n, Other) # es) =
     (if \<not> (writable md \<and> searchable md) then ((n, Other) # es, Some EACCES)
      else rm_entries md es)"

text \<open>\<open>Path.exists\<close>, \<open>Path.is_file\<close> and \<open>Path.is_dir\<close> call \<open>stat\<close> and answer no
  when it fails because the path is missing (\<open>ENOENT\<close>, \<open>ENOTDIR\<close>); any other error
  of \<open>stat\<close> is raised.\<close>

definition ignored :: "os_error \<Rightarrow> bool" where
  "ignored e = (e = ENOENT \<or> e = ENOTDIR)"

definition exists :: "path \<Rightarrow> node \<Rightarrow> os_error + bool" where
  "exists p fs =
     (case walk p fs of
        Inr n \<Rightarrow> Inr True
      | Inl e \<Rightarrow> if ignored e then Inr False else Inl e)"

definition is_file :: "path \<Rightarrow> node \<Rightarrow> os_error + bool" where
  "is_file p fs =
     (case walk p fs of
        Inr n \<Rightarrow> Inr (n = File)
      | Inl e \<Rightarrow> if ignored e then Inr False else Inl e)"

definition is_dir :: "path \<Rightarrow> node \<Rightarrow> os_error + bool" where
  "is_dir p fs =
     (case walk p fs of
        Inr n \<Rightarrow> Inr (case n of Dir own md es \<Rightarrow> True | _ \<Rightarrow> False)
      | Inl e \<Rightarrow> if ignored e then Inr False else Inl e)"

text \<open>\<open>Path.iterdir\<close>: the paths of the entries, read at once when the loop starts;
  listing a directory needs read permission on it.\<close>

definition iterdir :: "path \<Rightarrow> node \<Rightarrow> os_error + path list" where
  "iterdir p fs =
     (case walk p fs of
        Inl e \<Rightarrow> Inl e
      | Inr (Dir own md es) \<Rightarrow>
          if readable md then Inr (map (\<lambda>e. p @ [fst e]) es) else Inl EACCES
      | Inr _ \<Rightarrow> Inl ENOTDIR)"

text \<open>Removing or adding the last name of a path needs write permission on the
  directory that holds it (search permission there is needed to reach the path at all).\<close>

definition parent_writable :: "path \<Rightarrow> node \<Rightarrow> bool" where
  "parent_writable p fs =
     (case walk (butlast p) fs of
        Inr (Dir own md es) \<Rightarrow> writable md
      | _ \<Rightarrow> False)"

text \<open>\<open>Path.unlink\<close> and \<open>shutil.rmtree\<close>. \<open>rmtree\<close> examines the path, opens it for
  reading, empties it and removes it with \<open>rmdir\<close>; it may fail after removing part of
  the tree, so it returns the file system it leaves together with the error, if any.\<close>

definition unlink :: "path \<Rightarrow> node \<Rightarrow> os_error + node" where
  "unlink p fs =
     (case walk p fs of
        Inl e \<Rightarrow> Inl e
      | Inr n \<Rightarrow>
          if p = [] then Inl EBUSY
          else if \<not> parent_writable p fs then Inl EACCES
          else (case n of
                  Dir own md es \<Rightarrow> Inl EISDIR
                | _ \<Rightarrow> Inr (put p None fs)))"

definition rmtree :: "path \<Rightarrow> node \<Rightarrow> os_error option \<times> node" where
  "rmtree p fs =
     (case walk p fs of
        Inl e \<Rightarrow> (Some e, fs)
      | Inr (Dir own md es) \<Rightarrow>
          if \<not> readable md then (Some EACCES, fs)
          else (case rm_entries md es of
                  (es', Some e) \<Rightarrow> (Some e, put p (Some (Dir own md es')) fs)
                | (es', None) \<Rightarrow>
                    if p = [] then (Some EBUSY, put p (Some (Dir own md es')) fs)
                    else if \<not> parent_writable p fs
                    then (Some EACCES, put p (Some (Dir own md es')) fs)
                    else (None, put p None fs))
      | Inr _ \<Rightarrow> (Some ENOTDIR, fs))"

text \<open>\<open>os.mkdir\<close> creates one directory, owned by the process and, the umask leaving
  the owner's permissions alone, readable, writable and searchable by it. An existing
  entry is reported before the permission to write the parent is asked for.
  \<open>Path.mkdir(parents=True, exist_ok=True)\<close> calls \<open>os.mkdir\<close>, creates the missing
  parents first when it answers \<open>ENOENT\<close> and then calls itself once more without
  \<open>parents\<close>, and accepts any other error when the path is a directory already.\<close>

definition os_mkdir :: "path \<Rightarrow> node \<Rightarrow> os_error + node" where
  "os_mkdir p fs =
     (if p = [] then Inl EEXIST
      else case walk (butlast p) fs of
             Inl e \<Rightarrow> Inl e
           | Inr (Dir own md es) \<Rightarrow>
               if \<not> searchable md then Inl EACCES
               else (case map_of es (last p) of
                       Some c \<Rightarrow> Inl EEXIST
                     | None \<Rightarrow>
                         if \<not> writable md then Inl EACCES
                         else Inr (put p (Some (Dir True rwx [])) fs))
           | Inr _ \<Rightarrow> Inl ENOTDIR)"

definition mkdir_exist_ok :: "path \<Rightarrow> node \<Rightarrow> os_error option \<times> node" where
  "mkdir_exist_ok p fs =
     (case os_mkdir p fs of
        Inr fs' \<Rightarrow> (None, fs')
      | Inl e \<Rightarrow>
          if e = ENOENT then (Some e, fs)
          else (case is_dir p fs of
                  Inl e' \<Rightarrow> (Some e', fs)
                | Inr d \<Rightarrow> if d then (None, fs) else (Some e, fs)))"

function mkdir_parents :: "path \<Rightarrow> node \<Rightarrow> os_error option \<times> node" where
  "mkdir_parents p fs =
     (case os_mkdir p fs of
        Inr fs' \<Rightarrow> (None, fs')
      | Inl e \<Rightarrow>
          if e = ENOENT then
            (if p = [] then (Some e, fs)
             else (case mkdir_parents (butlast p) fs of
                     (Some e', fs') \<Rightarrow> (Some e', fs')
                   | (None, fs') \<Rightarrow> mkdir_exist_ok p fs'))
          else (case is_dir p fs of
                  Inl e' \<Rightarrow> (Some e', fs)
                | Inr d \<Rightarrow> if d then (None, fs) else (Some e, fs)))"
  by pat_completeness auto
termination
  by (relation "measure (\<lambda>(p, fs). length p)") auto

declare mkdir_parents.simps [simp del]

text \<open>\<open>Path.chmod(0o777)\<close>: allowed to the owner only; it makes a directory readable,
  writable and searchable. The owner and the mode of a node that is not a directory are
  not part of this model, where \<open>chmod\<close> leaves such a node as it is;
  \<open>setup_directories\<close> calls \<open>chmod\<close> on a path only after \<open>mkdir\<close> has returned for
  it, when the path is a directory.\<close>

definition chmod :: "path \<Rightarrow> node \<Rightarrow> os_error + node" where
  "chmod p fs =
     (case walk p fs of
        Inl e \<Rightarrow> Inl e
      | Inr (Dir own md es) \<Rightarrow>
          if own then Inr (put p (Some (Dir own rwx es)) fs) else Inl EPERM
      | Inr _ \<Rightarrow> Inr fs)"

text \<open>Facts about a file system that the statements below are written with.
  \<open>ready p\<close>: the path is a directory owned by the process and readable, writable and
  searchable by it. \<open>dir_flags\<close>: the owner flag and the mode of a directory.
  \<open>can_mkdir p\<close>: walking down \<open>p\<close>, every directory passed can be searched, and either
  the whole of \<open>p\<close> is there and is a directory, or the first missing name is missing
  from a directory that can be written.\<close>

definition ready :: "path \<Rightarrow> node \<Rightarrow> bool" where
  "ready p fs =
     (case walk p fs of
        Inr (Dir own md es) \<Rightarrow> own \<and> readable md \<and> writable md \<and> searchable md
      | _ \<Rightarrow> False)"

fun dir_flags :: "node \<Rightarrow> (bool \<times> perms) option" where
  "dir_flags (Dir own md es) = Some (own, md)"
| "dir_flags File = None"
| "dir_flags Other = None"

fun can_mkdir :: "path \<Rightarrow> node \<Rightarrow> bool" where
  "can_mkdir [] n = (dir_flags n \<noteq> None)"
| "can_mkdir (x # xs) (Dir own md es) =
     (searchable md \<and> (case map_of es x of None \<Rightarrow> writable md | Some c \<Rightarrow> can_mkdir xs c))"
| "can_mkdir (x # xs) File = False"
| "can_mkdir (x # xs) Other = False"

text \<open>\<open>refused p\<close>: the path cannot be made a directory of the process, because it
  cannot be created or because it is a directory that belongs to someone else.
  \<open>keeps fs fs'\<close>: going from \<open>fs\<close> to \<open>fs'\<close>, every node that was there is still
  there, a directory with its owner and mode, and no path that could not be created can
  be created now.\<close>

definition refused :: "path \<Rightarrow> node \<Rightarrow> bool" where
  "refused p fs =
     (\<not> can_mkdir p fs \<or> (case walk p fs of Inr (Dir own md es) \<Rightarrow> \<not> own | _ \<Rightarrow> False))"

definition keeps :: "node \<Rightarrow> node \<Rightarrow> bool" where
  "keeps fs fs' =
     ((\<forall>p n. walk p fs = Inr n \<longrightarrow> (\<exists>n'. walk p fs' = Inr n' \<and> dir_flags n' = dir_flags n)) \<and>
      (\<forall>p. \<not> can_mkdir p fs \<longrightarrow> \<not> can_mkdir p fs'))"


subsection \<open>The manager\<close>

text \<open>The messages of the logger, one constructor for each message of the source. The
  world the manager acts on is the file system and the log written so far.\<close>

datatype log_entry =
    DirectoryReady path
  | CreateFailed path os_error
  | UnknownDirectoryType string
  | Cleaned path
  | CleanFailed path os_error

record world =
  disk :: node
  journal :: "log_entry list"

definition logged :: "log_entry \<Rightarrow> world \<Rightarrow> world" where
  "logged l w = w\<lparr>journal := journal w @ [l]\<rparr>"

text \<open>The manager holds its base directory; \<open>required_dirs\<close> is the dictionary built by
  the constructor, in insertion order.\<close>

record directory_manager =
  base_dir :: path

definition required_dirs :: "directory_manager \<Rightarrow> (string \<times> path) list" where
  "required_dirs m =
     [(''research'', base_dir m @ [''research_dir'']),
      (''source'', base_dir m @ [''research_dir'', ''src'']),
      (''tex'', base_dir m @ [''research_dir'', ''tex'']),
      (''output'', base_dir m @ [''output'']),
      (''state'', base_dir m @ [''state_saves''])]"

definition get_path :: "directory_manager \<Rightarrow> string \<Rightarrow> path option" where
  "get_path m dir_type = map_of (required_dirs m) dir_type"

text \<open>\<open>setup_directories\<close>: the loop over \<open>required_dirs\<close>; the \<open>try\<close> block is
  \<open>mkdir\<close> then \<open>chmod\<close>, the \<open>except\<close> block records \<open>False\<close> and goes on with the
  next entry. \<open>AList.update\<close> is the assignment \<open>results[name] = ...\<close>.\<close>

fun setup_loop ::
  "(string \<times> path) list \<Rightarrow> (string \<times> bool) list \<Rightarrow> world \<Rightarrow> (string \<times> bool) list \<times> world" where
  "setup_loop [] results w = (results, w)"
| "setup_loop ((name, p) # rest) results w =
     (case mkdir_parents p (disk w) of
        (Some e, fs1) \<Rightarrow>
          setup_loop rest (AList.update name False results)
            (logged (CreateFailed p e) (w\<lparr>disk := fs1\<rparr>))
      | (None, fs1) \<Rightarrow>
          (case chmod p fs1 of
             Inl e \<Rightarrow>
               setup_loop rest (AList.update name False results)
                 (logged (CreateFailed p e) (w\<lparr>disk := fs1\<rparr>))
           | Inr fs2 \<Rightarrow>
               setup_loop rest (AList.update name True results)
                 (logged (DirectoryReady p) (w\<lparr>disk := fs2\<rparr>))))"

definition setup_directories :: "directory_manager \<Rightarrow> world \<Rightarrow> (string \<times> bool) list \<times> world" where
  "setup_directories m w = setup_loop (required_dirs m) [] w"

text \<open>The paths of a list of entries are in creation order when no path is an initial
  segment of one that comes before it.\<close>

fun creation_order :: "(string \<times> path) list \<Rightarrow> bool" where
  "creation_order [] = True"
| "creation_order ((name, p) # rest) =
     ((\<forall>e\<in>set rest. \<not> prefix (snd e) p) \<and> creation_order rest)"

text \<open>\<open>cleanup_directory\<close>: the body of the \<open>for\<close> loop, then the function. Every
  error of the \<open>try\<close> block ends in the \<open>except\<close> block, which logs it and returns
  \<open>False\<close>; the file system stays as the failed operation left it.\<close>

fun cleanup_items :: "path list \<Rightarrow> node \<Rightarrow> os_error option \<times> node" where
  "cleanup_items [] fs = (None, fs)"
| "cleanup_items (item # items) fs =
     (case is_file item fs of
        Inl e \<Rightarrow> (Some e, fs)
      | Inr True \<Rightarrow>
          (case unlink item fs of
             Inl e \<Rightarrow> (Some e, fs)
           | Inr fs' \<Rightarrow> cleanup_items items fs')
      | Inr False \<Rightarrow>
          (case is_dir item fs of
             Inl e \<Rightarrow> (Some e, fs)
           | Inr True \<Rightarrow>
               (case rmtree item fs of
                  (Some e, fs') \<Rightarrow> (Some e, fs')
                | (None, fs') \<Rightarrow> cleanup_items items fs')
           | Inr False \<Rightarrow> cleanup_items items fs))"

definition cleanup_directory :: "directory_manager \<Rightarrow> string \<Rightarrow> world \<Rightarrow> bool \<times> world" where
  "cleanup_directory m dir_type w =
     (case map_of (required_dirs m) dir_type of
        None \<Rightarrow> (False, logged (UnknownDirectoryType dir_type) w)
      | Some p \<Rightarrow>
          (case exists p (disk w) of
             Inl e \<Rightarrow> (False, logged (CleanFailed p e) w)
           | Inr False \<Rightarrow> (False, w)
           | Inr True \<Rightarrow>
               (case iterdir p (disk w) of
                  Inl e \<Rightarrow> (False, logged (CleanFailed p e) w)
                | Inr items \<Rightarrow>
                    (case cleanup_items items (disk w) of
                       (Some e, fs') \<Rightarrow> (False, logged (CleanFailed p e) (w\<lparr>disk := fs'\<rparr>))
                     | (None, fs') \<Rightarrow> (True, logged (Cleaned p) (w\<lparr>disk := fs'\<rparr>))))))"




definition blocked_disk :: node where
  "blocked_disk = Dir True rwx [(''workspace'', Dir True rwx [(''research_dir'', File)])]"

definition foreign_disk :: node where
  "foreign_disk = Dir True rwx [(''workspace'', Dir True rwx
      [(''research_dir'', Dir False rwx [])])]"


section \<open>Properties of the string operations\<close>

lemma word_not_space: "is_word c \<Longrightarrow> \<not> is_space c"
  by (auto simp: is_word_def is_alnum_def is_space_def Let_def)

lemma strip_length: "length (strip s) \<le> length s"
proof -
  have "length (strip s) \<le> length (dropWhile is_space s)"
    unfolding strip_def by (simp add: length_dropWhile_le order_trans[OF length_dropWhile_le])
  also have "\<dots> \<le> length s" by (rule length_dropWhile_le)
  finally show ?thesis .
qed

lemma strip_id: "s \<noteq> [] \<Longrightarrow> \<not> is_space (hd s) \<Longrightarrow> \<not> is_space (last s) \<Longrightarrow> strip s = s"
proof -
  assume a: "s \<noteq> []" "\<not> is_space (hd s)" "\<not> is_space (last s)"
  then have "dropWhile is_space s = s" by (cases s) auto
  moreover have "dropWhile is_space (rev s) = rev s"
    using a by (cases "rev s") (auto simp: last_rev[symmetric] hd_rev)
  ultimately show ?thesis by (simp add: strip_def)
qed

lemma strip_ends:
  "strip s \<noteq> [] \<Longrightarrow> \<not> is_space (hd (strip s)) \<and> \<not> is_space (last (strip s))"
proof -
  assume n: "strip s \<noteq> []"
  let ?d = "dropWhile is_space s"
  let ?r = "dropWhile is_space (rev ?d)"
  have r: "?r \<noteq> []" using n by (simp add: strip_def)
  then have l: "\<not> is_space (hd ?r)" by (rule hd_dropWhile)
  have "last (strip s) = hd ?r" using r by (simp add: strip_def last_rev)
  then have A: "\<not> is_space (last (strip s))" using l by simp
  have dn: "?d \<noteq> []" using r by (cases "?d") simp_all
  then have hd: "\<not> is_space (hd ?d)" by (rule hd_dropWhile)
  obtain k where k: "?r = drop k (rev ?d)" by (metis dropWhile_eq_drop)
  have "strip s = rev (drop k (rev ?d))" using k by (simp add: strip_def)
  also have "\<dots> = take (length ?d - k) ?d" by (simp add: rev_drop)
  finally have st: "strip s = take (length ?d - k) ?d" .
  with n have "0 < length ?d - k" by auto
  then have "hd (strip s) = hd ?d" using st by simp
  with hd A show ?thesis by simp
qed

lemma split_acc_run:
  "\<forall>c\<in>set t. \<not> is_space c \<Longrightarrow> split_acc w (t @ r) = split_acc (w @ t) r"
  by (induction t arbitrary: w) simp_all

lemma space_is_space: "is_space (CHR '' '')"
  by (simp add: is_space_def)

lemma split_acc_join:
  "\<forall>t\<in>set ts. t \<noteq> [] \<and> (\<forall>c\<in>set t. \<not> is_space c) \<Longrightarrow>
   split_acc [] (join '' '' ts) = ts"
proof (induction ts)
  case Nil
  then show ?case by simp
next
  case (Cons x xs)
  then have x: "x \<noteq> []" "\<forall>c\<in>set x. \<not> is_space c" by simp_all
  show ?case
  proof (cases xs)
    case Nil
    have "split_acc [] (x @ []) = split_acc ([] @ x) []"
      using x(2) by (rule split_acc_run)
    with x(1) Nil show ?thesis by simp
  next
    case (Cons y ys)
    have "split_acc [] (x @ (CHR '' '' # join '' '' xs)) = split_acc ([] @ x) (CHR '' '' # join '' '' xs)"
      using x(2) by (rule split_acc_run)
    moreover have "split_acc [] (join '' '' xs) = xs" using Cons.IH Cons.prems by simp
    ultimately show ?thesis using x(1) Cons by (simp add: space_is_space)
  qed
qed

lemma split_acc_tokens:
  "\<forall>c\<in>set w. \<not> is_space c \<Longrightarrow> t \<in> set (split_acc w s) \<Longrightarrow>
   t \<noteq> [] \<and> (\<forall>c\<in>set t. \<not> is_space c \<and> c \<in> set w \<union> set s)"
proof (induction s arbitrary: w)
  case Nil
  then show ?case by (cases "w = []") simp_all
next
  case (Cons a s)
  show ?case
  proof (cases "is_space a")
    case True
    show ?thesis
    proof (cases "w = []")
      case True
      with \<open>is_space a\<close> Cons.prems have "t \<in> set (split_acc [] s)" by simp
      with Cons.IH[of "[]"] show ?thesis by simp
    next
      case False
      with \<open>is_space a\<close> Cons.prems have "t = w \<or> t \<in> set (split_acc [] s)" by simp
      then show ?thesis
      proof
        assume "t = w"
        with False Cons.prems(1) show ?thesis by simp
      next
        assume "t \<in> set (split_acc [] s)"
        with Cons.IH[of "[]"] show ?thesis by simp
      qed
    qed
  next
    case False
    with Cons.prems have m: "t \<in> set (split_acc (w @ [a]) s)" by simp
    have "\<forall>c\<in>set (w @ [a]). \<not> is_space c" using False Cons.prems(1) by simp
    from Cons.IH[OF this m] show ?thesis by simp
  qed
qed

lemma split_tokens:
  "t \<in> set (split s) \<Longrightarrow> t \<noteq> [] \<and> (\<forall>c\<in>set t. \<not> is_space c \<and> c \<in> set s)"
  using split_acc_tokens[of "[]" t s] by (simp add: split_def)

lemma split_join: 
  "\<forall>t\<in>set ts. t \<noteq> [] \<and> (\<forall>c\<in>set t. \<not> is_space c) \<Longrightarrow> split (join '' '' ts) = ts"
  by (simp add: split_def split_acc_join)

lemma set_join: "set (join sep ts) \<subseteq> set sep \<union> (\<Union>t\<in>set ts. set t)"
  by (induction sep ts rule: join.induct) auto

lemma concat_split_acc:
  "concat (split_acc w s) = w @ filter (\<lambda>c. \<not> is_space c) s"
  by (induction s arbitrary: w) simp_all

lemma hyphen_not_space: "\<not> is_space (CHR ''-'')"
  by (simp add: is_space_def)

lemma clean_tokens:
  "t \<in> set (split (filter (\<lambda>c. \<not> special c) q)) \<Longrightarrow>
   t \<noteq> [] \<and> (\<forall>c\<in>set t. \<not> is_space c \<and> (is_word c \<or> c = CHR ''-''))"
proof -
  assume "t \<in> set (split (filter (\<lambda>c. \<not> special c) q))"
  from split_tokens[OF this]
  have a: "t \<noteq> []" and b: "\<forall>c\<in>set t. \<not> is_space c \<and> \<not> special c" by simp_all
  from b have "\<forall>c\<in>set t. \<not> is_space c \<and> (is_word c \<or> c = CHR ''-'')"
    unfolding special_def by blast
  with a show ?thesis by simp
qed

lemma clean_unfold:
  "clean_search_query q = join '' '' (split (filter (\<lambda>c. \<not> special c) q))"
  by (simp add: clean_search_query_def)

lemma split_clean:
  "split (clean_search_query q) = split (filter (\<lambda>c. \<not> special c) q)"
  unfolding clean_unfold using clean_tokens by (intro split_join) blast

lemma clean_chars:
  "c \<in> set (clean_search_query q) \<Longrightarrow> is_word c \<or> c = CHR '' '' \<or> c = CHR ''-''"
proof -
  assume "c \<in> set (clean_search_query q)"
  then have "c \<in> set '' '' \<union> (\<Union>t\<in>set (split (filter (\<lambda>c. \<not> special c) q)). set t)"
    using set_join unfolding clean_unfold by blast
  then have "c = CHR '' '' \<or> (\<exists>t\<in>set (split (filter (\<lambda>c. \<not> special c) q)). c \<in> set t)"
    by simp
  then show ?thesis using clean_tokens by blast
qed

lemma startswith_prefix: "startswith s p \<longleftrightarrow> prefix p s"
  by (induction s p rule: startswith.induct) auto

lemma contains_sublist: "contains s sub \<longleftrightarrow> sublist sub s"
proof (induction s)
  case Nil
  then show ?case by simp
next
  case (Cons a s)
  then show ?case by (simp add: startswith_prefix sublist_Cons_right)
qed


section \<open>clean\_search\_query\<close>

lemma clean_keeps: "c \<in> set (clean_search_query q) \<Longrightarrow> \<not> special c"
proof -
  assume "c \<in> set (clean_search_query q)"
  from clean_chars[OF this] show ?thesis
    unfolding special_def using space_is_space by blast
qed

lemma clean_concat:
  "concat (split (clean_search_query q)) = filter (\<lambda>c. is_word c \<or> c = CHR ''-'') q"
proof -
  have "concat (split (clean_search_query q)) = concat (split (filter (\<lambda>c. \<not> special c) q))"
    by (simp only: split_clean)
  also have "\<dots> = filter (\<lambda>c. \<not> is_space c) (filter (\<lambda>c. \<not> special c) q)"
    by (simp add: split_def concat_split_acc)
  also have "\<dots> = filter (\<lambda>c. \<not> special c \<and> \<not> is_space c) q"
    by (simp only: filter_filter)
  also have "\<dots> = filter (\<lambda>c. is_word c \<or> c = CHR ''-'') q"
  proof (rule filter_cong[OF refl])
    fix c
    show "(\<not> special c \<and> \<not> is_space c) = (is_word c \<or> c = CHR ''-'')"
      unfolding special_def using word_not_space[of c] hyphen_not_space by blast
  qed
  finally show ?thesis .
qed

text \<open>
  C3, as the code has it. The class \<open>\w\<close> holds the underscore besides the alphanumerics,
  and nothing merges adjacent hyphens, so the result of \<open>clean_search_query\<close> consists of
  word characters (alphanumerics and the underscore), hyphens and single spaces: it is its
  own words joined by one space, these words are the words of the input once the
  characters outside word characters, whitespace and hyphen are deleted, and their
  characters are the word characters and hyphens of the input, in order. In particular
  \<open>a!! b--c  d\<close> becomes \<open>a b--c d\<close>.
\<close>

theorem clean_search_query_shape:
  "(\<forall>c\<in>set (clean_search_query q). is_word c \<or> c = CHR '' '' \<or> c = CHR ''-'') \<and>
   join '' '' (split (clean_search_query q)) = clean_search_query q \<and>
   split (clean_search_query q) = split (filter (\<lambda>c. is_word c \<or> is_space c \<or> c = CHR ''-'') q) \<and>
   concat (split (clean_search_query q)) = filter (\<lambda>c. is_word c \<or> c = CHR ''-'') q \<and>
   clean_search_query ''a!! b--c  d'' = ''a b--c d''"
proof -
  have 1: "\<forall>c\<in>set (clean_search_query q). is_word c \<or> c = CHR '' '' \<or> c = CHR ''-''"
    using clean_chars by blast
  have 2: "join '' '' (split (clean_search_query q)) = clean_search_query q"
    using split_clean[of q] clean_unfold[of q] by simp
  have 3: "split (clean_search_query q) = split (filter (\<lambda>c. is_word c \<or> is_space c \<or> c = CHR ''-'') q)"
    by (simp only: split_clean special_def not_not)
  have 5: "clean_search_query ''a!! b--c  d'' = ''a b--c d''" by code_simp
  from 1 2 3 clean_concat 5 show ?thesis by blast
qed

theorem clean_search_query_shape_witness:
  "CHR ''b'' \<in> set (clean_search_query ''a!! b--c  d'') \<and>
   (is_word (CHR ''b'') \<or> CHR ''b'' = CHR '' '' \<or> CHR ''b'' = CHR ''-'')"
proof -
  have m: "CHR ''b'' \<in> set (clean_search_query ''a!! b--c  d'')" by code_simp
  have "\<forall>c\<in>set (clean_search_query ''a!! b--c  d''). is_word c \<or> c = CHR '' '' \<or> c = CHR ''-''"
    using clean_search_query_shape[of "''a!! b--c  d''"] by (rule conjunct1)
  with m show ?thesis by blast
qed

text \<open>
  C3 as stated fails on the code: the two hyphens of \<open>a!! b--c  d\<close> are both kept, and
  an underscore, which is not alphanumeric, is kept too.
\<close>

theorem clean_search_query_counterexample:
  "clean_search_query ''a!! b--c  d'' \<noteq> ''a b-c d'' \<and>
   clean_search_query ''a_b'' = ''a_b'' \<and> \<not> is_alnum (CHR ''_'')"
  by code_simp

text \<open>
  C9: \<open>clean_search_query\<close> is idempotent: cleaning a cleaned query changes nothing.
\<close>

theorem clean_search_query_idempotent: "clean_search_query (clean_search_query q) = clean_search_query q"
proof -
  have "filter (\<lambda>c. \<not> special c) (clean_search_query q) = clean_search_query q"
    by (rule filter_True) (simp add: clean_keeps)
  then have "clean_search_query (clean_search_query q) = join '' '' (split (clean_search_query q))"
    by (simp add: clean_unfold[of "clean_search_query q"])
  also have "\<dots> = join '' '' (split (filter (\<lambda>c. \<not> special c) q))"
    by (simp only: split_clean)
  also have "\<dots> = clean_search_query q"
    by (simp only: clean_unfold)
  finally show ?thesis .
qed


section \<open>format\_feedback\<close>

lemma format_feedback_example: "format_feedback (replicate 2000 (CHR ''x'')) 1000 = replicate 1000 (CHR ''x'') @ ''...''"
proof -
  have "format_feedback (replicate 2000 (CHR ''x'')) 1000 = strip (replicate 1000 (CHR ''x'') @ ''...'')"
    by (simp add: format_feedback_def slice_to_def)
  also have "\<dots> = replicate 1000 (CHR ''x'') @ ''...''"
    by (rule strip_id) (simp_all add: is_space_def hd_append)
  finally show ?thesis .
qed

text \<open>
  C7: for a non-negative \<open>max_length\<close>, a feedback longer than \<open>max_length\<close> is cut to
  its first \<open>max_length\<close> characters followed by the ellipsis \<open>...\<close>, a shorter one is
  left as it is, and in both cases the surrounding whitespace is trimmed, so that the
  result neither starts nor ends with whitespace. 2000 times \<open>x\<close> with \<open>max_length\<close> 1000
  gives a string of length 1003 that ends with the ellipsis.
\<close>

theorem format_feedback_truncates:
  "(0 \<le> m \<and> m < int (length s) \<longrightarrow> format_feedback s m = strip (take (nat m) s @ ''...'')) \<and>
   (int (length s) \<le> m \<longrightarrow> format_feedback s m = strip s) \<and>
   (format_feedback s m \<noteq> [] \<longrightarrow>
      \<not> is_space (hd (format_feedback s m)) \<and> \<not> is_space (last (format_feedback s m))) \<and>
   length (format_feedback (replicate 2000 (CHR ''x'')) 1000) = 1003 \<and>
   drop 1000 (format_feedback (replicate 2000 (CHR ''x'')) 1000) = ''...''"
proof -
  have 1: "0 \<le> m \<and> m < int (length s) \<longrightarrow> format_feedback s m = strip (take (nat m) s @ ''...'')"
    by (simp add: format_feedback_def slice_to_def)
  have 2: "int (length s) \<le> m \<longrightarrow> format_feedback s m = strip s"
    by (simp add: format_feedback_def)
  have 3: "format_feedback s m \<noteq> [] \<longrightarrow>
      \<not> is_space (hd (format_feedback s m)) \<and> \<not> is_space (last (format_feedback s m))"
    using strip_ends by (simp add: format_feedback_def Let_def)
  have 4: "length (format_feedback (replicate 2000 (CHR ''x'')) 1000) = 1003"
    by (simp add: format_feedback_example)
  have 5: "drop 1000 (format_feedback (replicate 2000 (CHR ''x'')) 1000) = ''...''"
    by (simp add: format_feedback_example)
  from 1 2 3 4 5 show ?thesis by blast
qed

theorem format_feedback_truncates_witness:
  "(0::int) \<le> 7 \<and> 7 < int (length ''  hello world'') \<and>
   format_feedback ''  hello world'' 7 = strip (take (nat 7) ''  hello world'' @ ''...'') \<and>
   format_feedback ''  hello world'' 7 = ''hello...''"
proof -
  have h: "(0::int) \<le> 7 \<and> 7 < int (length ''  hello world'')" by simp
  have e: "strip (take (nat 7) ''  hello world'' @ ''...'') = ''hello...''" by code_simp
  from h format_feedback_truncates[of 7 "''  hello world''"]
  have "format_feedback ''  hello world'' 7 = strip (take (nat 7) ''  hello world'' @ ''...'')"
    by blast
  with h e show ?thesis by simp
qed

text \<open>
  C10: for a non-negative \<open>max_length\<close>, the result of \<open>format_feedback\<close> has at most
  \<open>max_length + 3\<close> characters, whatever whitespace the input carries.
\<close>

theorem format_feedback_length_bound: "0 \<le> m \<Longrightarrow> length (format_feedback s m) \<le> nat m + 3"
proof (cases "int (length s) > m")
  case True
  assume "0 \<le> m"
  with True have "format_feedback s m = strip (take (nat m) s @ ''...'')"
    by (simp add: format_feedback_def slice_to_def)
  moreover have "length (strip (take (nat m) s @ ''...'')) \<le> length (take (nat m) s @ ''...'')"
    by (rule strip_length)
  ultimately show ?thesis by simp
next
  case False
  assume "0 \<le> m"
  from False have "format_feedback s m = strip s" by (simp add: format_feedback_def)
  moreover have "length (strip s) \<le> length s" by (rule strip_length)
  ultimately show ?thesis using False by simp
qed

theorem format_feedback_length_bound_witness:
  "(0::int) \<le> 7 \<and> length (format_feedback ''  hello world  '' 7) \<le> nat 7 + 3"
proof -
  have h: "(0::int) \<le> 7" by simp
  from format_feedback_length_bound[OF h, of "''  hello world  ''"] h show ?thesis by simp
qed


section \<open>validate\_prompt\<close>

text \<open>The second test of \<open>validate_prompt\<close> holds as soon as the prompt has a CR LF: the
  LF it asks for besides is the one of the CR LF.\<close>

lemma validate_prompt_mixed_iff:
  "''Mixed line endings'' \<in> set (validate_prompt s) \<longleftrightarrow> sublist [CR, LF] s"
proof -
  have a: "sublist [CR, LF] s \<Longrightarrow> sublist [LF] s"
    by (meson sublist_Cons_right sublist_order.order.trans sublist_order.order_refl prefix_order.order_refl prefix_Cons sublist_code(3))
  have "''Mixed line endings'' \<in> set (validate_prompt s) \<longleftrightarrow> contains s [CR, LF] \<and> contains s [LF]"
    by (simp add: validate_prompt_def Let_def)
  with a show ?thesis by (auto simp: contains_sublist)
qed

text \<open>
  C2, on the code: a prompt whose only line break is a CR LF, with no bare LF, is
  reported as having mixed line endings.
\<close>

theorem validate_prompt_crlf_only_reported:
  "validate_prompt [CHR ''a'', CR, LF, CHR ''b''] = [''Mixed line endings'']"
  by code_simp


section \<open>The file system operations\<close>

lemma map_of_set_entry_same: "map_of (set_entry x (Some m) es) x = Some m"
  by (induction es) auto

lemma map_of_set_entry_other: "y \<noteq> x \<Longrightarrow> map_of (set_entry y v es) x = map_of es x"
  by (induction es) (auto split: option.splits)

lemma walk_Cons_Inr:
  "walk (x # xs) fs = Inr d \<Longrightarrow>
   \<exists>own md es c. fs = Dir own md es \<and> searchable md \<and> map_of es x = Some c \<and> walk xs c = Inr d"
  by (cases fs) (auto split: if_splits option.splits)

lemma put_Cons_nonempty:
  "q \<noteq> [] \<Longrightarrow> map_of es x = Some c \<Longrightarrow>
   put (x # q) v (Dir own md es) = Dir own md (set_entry x (Some (put q v c)) es)"
  by (cases q) simp_all

lemma walk_put:
  "walk p fs = Inr d \<Longrightarrow> q \<noteq> [] \<Longrightarrow> walk p (put (p @ q) v fs) = Inr (put q v d)"
proof (induction p arbitrary: fs)
  case Nil
  then show ?case by simp
next
  case (Cons x xs)
  from walk_Cons_Inr[OF Cons.prems(1)] obtain own md es c where
    fs: "fs = Dir own md es" and s: "searchable md" and c: "map_of es x = Some c"
    and w: "walk xs c = Inr d"
    by blast
  have ne: "xs @ q \<noteq> []" using Cons.prems(2) by simp
  have "put ((x # xs) @ q) v fs = Dir own md (set_entry x (Some (put (xs @ q) v c)) es)"
    using put_Cons_nonempty[OF ne c] fs by simp
  then show ?case
    using Cons.IH[OF w Cons.prems(2)] s by (simp add: map_of_set_entry_same)
qed

lemma walk_append:
  "walk p fs = Inr d \<Longrightarrow> walk (p @ q) fs = walk q d"
proof (induction p arbitrary: fs)
  case Nil
  then show ?case by simp
next
  case (Cons x xs)
  from walk_Cons_Inr[OF Cons.prems] obtain own md es c where
    "fs = Dir own md es" "searchable md" "map_of es x = Some c" "walk xs c = Inr d" by blast
  then show ?case using Cons.IH by simp
qed

lemma walk_prefix:
  "walk (p @ q) fs = Inr n \<Longrightarrow> \<exists>d. walk p fs = Inr d"
proof (induction p arbitrary: fs)
  case Nil
  then show ?case by simp
next
  case (Cons x xs)
  from Cons.prems have "walk (x # (xs @ q)) fs = Inr n" by simp
  from walk_Cons_Inr[OF this] obtain own md es c where
    "fs = Dir own md es" "searchable md" "map_of es x = Some c" "walk (xs @ q) c = Inr n" by blast
  then show ?case using Cons.IH by simp
qed








lemma walk_put_same:
  "walk p fs = Inr d \<Longrightarrow> walk p (put p (Some m) fs) = Inr m"
proof (induction p arbitrary: fs)
  case Nil
  then show ?case by simp
next
  case (Cons x xs)
  from walk_Cons_Inr[OF Cons.prems(1)] obtain own md es c where
    fs: "fs = Dir own md es" and s: "searchable md" and c: "map_of es x = Some c"
    and w: "walk xs c = Inr d"
    by blast
  show ?case
  proof (cases xs)
    case Nil
    then show ?thesis using fs s by (simp add: map_of_set_entry_same)
  next
    case (Cons y ys)
    then show ?thesis
      using fs s c Cons.IH[OF w] by (simp add: map_of_set_entry_same)
  qed
qed













section \<open>cleanup\_directory\<close>

text \<open>
  C4: for a name that is not one of the five logical names \<open>research\<close>, \<open>source\<close>,
  \<open>tex\<close>, \<open>output\<close>, \<open>state\<close>, \<open>cleanup_directory\<close> fails: it returns \<open>False\<close>, the
  error it reports is the unknown directory type with the name given, and the file
  system is left as it was. So it is for the name \<open>bogus\<close>.
\<close>

theorem cleanup_directory_unknown:
  "name \<notin> set [''research'', ''source'', ''tex'', ''output'', ''state''] \<Longrightarrow>
   cleanup_directory m name w = (False, logged (UnknownDirectoryType name) w)"
proof -
  assume "name \<notin> set [''research'', ''source'', ''tex'', ''output'', ''state'']"
  then have "map_of (required_dirs m) name = None"
    by (simp add: required_dirs_def)
  then show ?thesis by (simp add: cleanup_directory_def)
qed

theorem cleanup_directory_unknown_witness:
  "''bogus'' \<notin> set [''research'', ''source'', ''tex'', ''output'', ''state''] \<and>
   cleanup_directory \<lparr>base_dir = [''workspace'']\<rparr> ''bogus'' \<lparr>disk = Dir True rwx [], journal = []\<rparr>
     = (False, \<lparr>disk = Dir True rwx [], journal = [UnknownDirectoryType ''bogus'']\<rparr>)"
proof -
  have h: "''bogus'' \<notin> set [''research'', ''source'', ''tex'', ''output'', ''state'']" by simp
  from cleanup_directory_unknown[OF h, of "\<lparr>base_dir = [''workspace'']\<rparr>" "\<lparr>disk = Dir True rwx [], journal = []\<rparr>"] h
  show ?thesis by (simp add: logged_def)
qed




section \<open>setup\_directories\<close>

subsection \<open>What a change at one path leaves alone\<close>

lemma dir_flags_put: "r \<noteq> [] \<Longrightarrow> dir_flags (put r v n) = dir_flags n"
proof (cases r)
  case Nil
  assume "r \<noteq> []"
  with Nil show ?thesis by simp
next
  case (Cons x xs)
  show ?thesis
  proof (cases n)
    case (Dir own md es)
    with Cons show ?thesis by (cases xs) (simp_all split: option.splits)
  qed (simp_all add: Cons)
qed

lemma walk_put_other:
  "\<not> prefix r p \<Longrightarrow> walk p fs = Inr n \<Longrightarrow>
   \<exists>n'. walk p (put r v fs) = Inr n' \<and> dir_flags n' = dir_flags n"
proof (induction p arbitrary: r fs)
  case Nil
  then have "r \<noteq> []" by auto
  with Nil show ?case by (simp add: dir_flags_put)
next
  case (Cons x xs)
  from walk_Cons_Inr[OF Cons.prems(2)] obtain own md es c where
    fs: "fs = Dir own md es" and s: "searchable md" and c: "map_of es x = Some c"
    and w: "walk xs c = Inr n"
    by blast
  from Cons.prems(1) obtain y ys where r: "r = y # ys" by (cases r) auto
  show ?case
  proof (cases "y = x")
    case False
    have "\<exists>es'. put r v fs = Dir own md es' \<and> map_of es' x = Some c"
    proof (cases ys)
      case Nil
      with r fs False c show ?thesis by (simp add: map_of_set_entry_other)
    next
      case (Cons z zs)
      with r fs False c show ?thesis
        by (cases "map_of es y") (simp_all add: map_of_set_entry_other)
    qed
    then obtain es' where "put r v fs = Dir own md es'" "map_of es' x = Some c" by blast
    with s w show ?thesis by simp
  next
    case True
    with Cons.prems(1) r have np: "\<not> prefix ys xs" by simp
    then have ne: "ys \<noteq> []" by auto
    have "put r v fs = Dir own md (set_entry x (Some (put ys v c)) es)"
      using put_Cons_nonempty[OF ne c] r True fs by simp
    with s Cons.IH[OF np w] show ?thesis by (simp add: map_of_set_entry_same)
  qed
qed

lemma can_mkdir_put_other:
  "\<not> prefix r p \<Longrightarrow> can_mkdir p (put r v fs) = can_mkdir p fs"
proof (induction p arbitrary: r fs)
  case Nil
  then have "r \<noteq> []" by auto
  then show ?case by (simp add: dir_flags_put)
next
  case (Cons x xs)
  from Cons.prems obtain y ys where r: "r = y # ys" by (cases r) auto
  show ?case
  proof (cases fs)
    case File
    with r show ?thesis by simp
  next
    case Other
    with r show ?thesis by simp
  next
    case (Dir own md es)
    show ?thesis
    proof (cases "y = x")
      case False
      have "\<exists>es'. put r v fs = Dir own md es' \<and> map_of es' x = map_of es x"
      proof (cases ys)
        case Nil
        with r Dir False show ?thesis by (simp add: map_of_set_entry_other)
      next
        case (Cons z zs)
        with r Dir False show ?thesis
          by (cases "map_of es y") (simp_all add: map_of_set_entry_other)
      qed
      then obtain es' where "put r v fs = Dir own md es'" "map_of es' x = map_of es x" by blast
      with Dir show ?thesis by simp
    next
      case True
      with Cons.prems r have np: "\<not> prefix ys xs" by simp
      then have ne: "ys \<noteq> []" by auto
      then obtain z zs where ys: "ys = z # zs" by (cases ys) auto
      show ?thesis
      proof (cases "map_of es x")
        case None
        with r True Dir ys show ?thesis by simp
      next
        case (Some c)
        have "put r v fs = Dir own md (set_entry x (Some (put ys v c)) es)"
          using put_Cons_nonempty[OF ne Some] r True Dir by simp
        with Dir Some Cons.IH[OF np, of c] show ?thesis by (simp add: map_of_set_entry_same)
      qed
    qed
  qed
qed

lemma can_mkdir_append:
  "walk q fs = Inr d \<Longrightarrow> can_mkdir (q @ r) fs = can_mkdir r d"
proof (induction q arbitrary: fs)
  case Nil
  then show ?case by simp
next
  case (Cons x xs)
  from walk_Cons_Inr[OF Cons.prems] obtain own md es c where
    "fs = Dir own md es" "searchable md" "map_of es x = Some c" "walk xs c = Inr d" by blast
  then show ?case using Cons.IH by simp
qed

lemma can_mkdir_walk_error:
  "walk q fs = Inl e \<Longrightarrow> e \<noteq> ENOENT \<Longrightarrow> \<not> can_mkdir (q @ r) fs"
proof (induction q arbitrary: fs)
  case Nil
  then show ?case by simp
next
  case (Cons x xs)
  show ?case
  proof (cases fs)
    case (Dir own md es)
    with Cons show ?thesis by (auto split: if_splits option.splits)
  qed simp_all
qed

lemma can_mkdir_prefix: "can_mkdir (q @ r) fs \<Longrightarrow> can_mkdir q fs"
proof (induction q arbitrary: fs)
  case Nil
  then show ?case by (cases r; cases fs) simp_all
next
  case (Cons x xs)
  show ?case
  proof (cases fs)
    case (Dir own md es)
    with Cons show ?thesis by (auto split: option.splits)
  next
    case File
    with Cons.prems show ?thesis by simp
  next
    case Other
    with Cons.prems show ?thesis by simp
  qed
qed

lemma can_mkdir_directory:
  "walk p fs = Inr n \<Longrightarrow> dir_flags n \<noteq> None \<Longrightarrow> can_mkdir p fs"
  using can_mkdir_append[of p fs n "[]"] by simp

lemma keeps_refl: "keeps fs fs"
  by (simp add: keeps_def)

lemma keeps_trans: "keeps a b \<Longrightarrow> keeps b c \<Longrightarrow> keeps a c"
  unfolding keeps_def by (metis (no_types, lifting))

lemma keeps_put:
  assumes "\<And>p. prefix r p \<Longrightarrow> (\<forall>n. walk p fs \<noteq> Inr n) \<and> can_mkdir p fs"
  shows "keeps fs (put r v fs)"
  unfolding keeps_def
proof (intro conjI allI impI)
  fix p n assume w: "walk p fs = Inr n"
  with assms have "\<not> prefix r p" by blast
  then show "\<exists>n'. walk p (put r v fs) = Inr n' \<and> dir_flags n' = dir_flags n"
    using w by (rule walk_put_other)
next
  fix p assume c: "\<not> can_mkdir p fs"
  with assms have "\<not> prefix r p" by blast
  then show "\<not> can_mkdir p (put r v fs)" using c by (simp add: can_mkdir_put_other)
qed

subsection \<open>mkdir\<close>

lemma os_mkdir_Inr:
  assumes "os_mkdir r fs = Inr fs'"
  shows "\<exists>q x own md es. r = q @ [x] \<and> walk q fs = Inr (Dir own md es) \<and> searchable md \<and>
           writable md \<and> map_of es x = None \<and> fs' = put r (Some (Dir True rwx [])) fs"
proof -
  from assms have ne: "r \<noteq> []" by (auto simp: os_mkdir_def)
  then have r: "r = butlast r @ [last r]" by simp
  from assms ne obtain n where w: "walk (butlast r) fs = Inr n"
    by (cases "walk (butlast r) fs") (simp_all add: os_mkdir_def)
  from assms ne w obtain own md es where n: "n = Dir own md es"
    by (cases n) (simp_all add: os_mkdir_def)
  from assms ne w n have "searchable md \<and> writable md \<and> map_of es (last r) = None \<and>
      fs' = put r (Some (Dir True rwx [])) fs"
    by (auto simp: os_mkdir_def split: if_splits option.splits)
  with r w n show ?thesis by blast
qed

lemma os_mkdir_creates:
  assumes "os_mkdir r fs = Inr fs'"
  shows "walk r fs' = Inr (Dir True rwx [])"
proof -
  from os_mkdir_Inr[OF assms] obtain q x own md es where
    r: "r = q @ [x]" and w: "walk q fs = Inr (Dir own md es)" and s: "searchable md"
    and fs': "fs' = put r (Some (Dir True rwx [])) fs" by blast
  have "walk q fs' = Inr (put [x] (Some (Dir True rwx [])) (Dir own md es))"
    unfolding fs' r using w by (intro walk_put) simp_all
  then have "walk (q @ [x]) fs' = walk [x] (put [x] (Some (Dir True rwx [])) (Dir own md es))"
    by (rule walk_append)
  with s r show ?thesis by (simp add: map_of_set_entry_same)
qed

lemma os_mkdir_keeps:
  assumes "os_mkdir r fs = Inr fs'"
  shows "keeps fs fs'"
proof -
  from os_mkdir_Inr[OF assms] obtain q x own md es where
    r: "r = q @ [x]" and w: "walk q fs = Inr (Dir own md es)" and s: "searchable md"
    and wr: "writable md" and ab: "map_of es x = None"
    and fs': "fs' = put r (Some (Dir True rwx [])) fs" by blast
  have "(\<forall>n. walk p fs \<noteq> Inr n) \<and> can_mkdir p fs" if "prefix r p" for p
  proof -
    from that obtain t where p: "p = q @ (x # t)" using r by (auto simp: prefix_def)
    have "walk p fs = walk (x # t) (Dir own md es)" unfolding p using w by (rule walk_append)
    with s ab have 1: "walk p fs = Inl ENOENT" by simp
    have "can_mkdir p fs = can_mkdir (x # t) (Dir own md es)"
      unfolding p using w by (rule can_mkdir_append)
    with s ab wr have 2: "can_mkdir p fs" by simp
    from 1 2 show ?thesis by simp
  qed
  then show ?thesis unfolding fs' by (rule keeps_put)
qed

lemma os_mkdir_fails:
  assumes "os_mkdir p fs = Inl e" and "e \<noteq> ENOENT" and "is_dir p fs \<noteq> Inr True"
  shows "\<not> can_mkdir p fs"
proof (cases "p = []")
  case True
  with assms(3) show ?thesis by (cases fs) (simp_all add: is_dir_def)
next
  case False
  then have p: "p = butlast p @ [last p]" by simp
  show ?thesis
  proof (cases "walk (butlast p) fs")
    case (Inl e')
    with assms(1) False have "e' = e" by (simp add: os_mkdir_def)
    with Inl assms(2) have "\<not> can_mkdir (butlast p @ [last p]) fs"
      by (intro can_mkdir_walk_error) simp_all
    with p show ?thesis by simp
  next
    case (Inr n)
    have c: "can_mkdir p fs = can_mkdir [last p] n"
      using can_mkdir_append[OF Inr, of "[last p]"] p by simp
    have wk: "walk p fs = walk [last p] n"
      using walk_append[OF Inr, of "[last p]"] p by simp
    show ?thesis
    proof (cases n)
      case (Dir own md es)
      show ?thesis
      proof (cases "searchable md")
        case False
        with c Dir show ?thesis by simp
      next
        case s: True
        show ?thesis
        proof (cases "map_of es (last p)")
          case None
          with assms(1) False Inr Dir s have "\<not> writable md"
            by (auto simp: os_mkdir_def split: if_splits)
          with c Dir None show ?thesis by simp
        next
          case (Some ch)
          with wk Dir s have "walk p fs = Inr ch" by simp
          with assms(3) have "dir_flags ch = None" by (cases ch) (simp_all add: is_dir_def)
          with c Dir s Some show ?thesis by simp
        qed
      qed
    next
      case File
      with c show ?thesis by simp
    next
      case Other
      with c show ?thesis by simp
    qed
  qed
qed

lemma is_dir_True:
  "is_dir p fs = Inr True \<Longrightarrow> \<exists>n. walk p fs = Inr n \<and> dir_flags n \<noteq> None"
  by (cases "walk p fs") (auto simp: is_dir_def split: if_splits node.splits)

text \<open>What \<open>Path.mkdir(parents=True, exist_ok=True)\<close> leaves: nothing that was there is
  lost; when it returns, the path is a directory; when it raises, the path cannot be
  created.\<close>

lemma mkdir_exist_ok_spec:
  assumes "mkdir_exist_ok p fs = (r, fs')"
  shows "keeps fs fs' \<and>
         (r = None \<longrightarrow> (\<exists>n. walk p fs' = Inr n \<and> dir_flags n \<noteq> None)) \<and>
         (r \<noteq> None \<longrightarrow> fs' = fs \<and> (os_mkdir p fs = Inl ENOENT \<or> \<not> can_mkdir p fs))"
proof (cases "os_mkdir p fs")
  case (Inr fs1)
  with assms have "r = None" "fs' = fs1" by (simp_all add: mkdir_exist_ok_def)
  with Inr os_mkdir_keeps[OF Inr] os_mkdir_creates[OF Inr] show ?thesis by auto
next
  case (Inl e)
  show ?thesis
  proof (cases "e = ENOENT")
    case True
    with Inl assms show ?thesis by (auto simp: mkdir_exist_ok_def keeps_refl)
  next
    case ne: False
    show ?thesis
    proof (cases "is_dir p fs = Inr True")
      case True
      with Inl ne assms have "r = None" "fs' = fs" by (simp_all add: mkdir_exist_ok_def)
      with is_dir_True[OF True] show ?thesis by (simp add: keeps_refl)
    next
      case False
      with Inl ne assms have "r \<noteq> None" "fs' = fs"
        by (auto simp: mkdir_exist_ok_def split: sum.splits if_splits)
      with os_mkdir_fails[OF Inl ne False] show ?thesis by (auto simp: keeps_refl)
    qed
  qed
qed

lemma mkdir_parents_spec:
  "mkdir_parents p fs = (r, fs') \<Longrightarrow>
   keeps fs fs' \<and>
   (r = None \<longrightarrow> (\<exists>n. walk p fs' = Inr n \<and> dir_flags n \<noteq> None)) \<and>
   (r \<noteq> None \<longrightarrow> \<not> can_mkdir p fs')"
proof (induction p arbitrary: fs r fs' rule: rev_induct)
  case Nil
  have os: "os_mkdir [] fs = Inl EEXIST" by (simp add: os_mkdir_def)
  show ?case
  proof (cases "is_dir [] fs = Inr True")
    case True
    with Nil os have "r = None" "fs' = fs" by (simp_all add: mkdir_parents.simps[of "[]"])
    with is_dir_True[OF True] show ?thesis by (simp add: keeps_refl)
  next
    case False
    with Nil os have "r \<noteq> None" "fs' = fs"
      by (auto simp: mkdir_parents.simps[of "[]"] split: sum.splits if_splits)
    with os_mkdir_fails[OF os _ False] show ?thesis by (auto simp: keeps_refl)
  qed
next
  case (snoc x q)
  let ?p = "q @ [x]"
  show ?case
  proof (cases "os_mkdir ?p fs")
    case (Inr fs1)
    with snoc.prems have "r = None" "fs' = fs1" by (simp_all add: mkdir_parents.simps[of ?p])
    with os_mkdir_keeps[OF Inr] os_mkdir_creates[OF Inr] show ?thesis by auto
  next
    case (Inl e)
    show ?thesis
    proof (cases "e = ENOENT")
      case ne: False
      show ?thesis
      proof (cases "is_dir ?p fs = Inr True")
        case True
        with Inl ne snoc.prems have "r = None" "fs' = fs"
          by (simp_all add: mkdir_parents.simps[of ?p])
        with is_dir_True[OF True] show ?thesis by (simp add: keeps_refl)
      next
        case False
        with Inl ne snoc.prems have "r \<noteq> None" "fs' = fs"
          by (auto simp: mkdir_parents.simps[of ?p] split: sum.splits if_splits)
        with os_mkdir_fails[OF Inl ne False] show ?thesis by (auto simp: keeps_refl)
      qed
    next
      case True
      obtain r1 fs1 where par: "mkdir_parents q fs = (r1, fs1)" by (cases "mkdir_parents q fs")
      from snoc.IH[OF par] have k1: "keeps fs fs1"
        and ok1: "r1 = None \<longrightarrow> (\<exists>n. walk q fs1 = Inr n \<and> dir_flags n \<noteq> None)"
        and bad1: "r1 \<noteq> None \<longrightarrow> \<not> can_mkdir q fs1" by simp_all
      show ?thesis
      proof (cases r1)
        case (Some e1)
        with Inl True par snoc.prems have "r = Some e1" "fs' = fs1"
          by (simp_all add: mkdir_parents.simps[of ?p])
        moreover from bad1 Some have "\<not> can_mkdir ?p fs1" using can_mkdir_prefix by blast
        ultimately show ?thesis using k1 by simp
      next
        case None
        with Inl True par snoc.prems have me: "mkdir_exist_ok ?p fs1 = (r, fs')"
          by (simp add: mkdir_parents.simps[of ?p])
        from mkdir_exist_ok_spec[OF me] have k2: "keeps fs1 fs'"
          and ok2: "r = None \<longrightarrow> (\<exists>n. walk ?p fs' = Inr n \<and> dir_flags n \<noteq> None)"
          and bad2: "r \<noteq> None \<longrightarrow> fs' = fs1 \<and> (os_mkdir ?p fs1 = Inl ENOENT \<or> \<not> can_mkdir ?p fs1)"
          by simp_all
        from ok1 None obtain n where wq: "walk q fs1 = Inr n" and dn: "dir_flags n \<noteq> None"
          by blast
        have "os_mkdir ?p fs1 \<noteq> Inl ENOENT"
          using wq dn by (cases n) (auto simp: os_mkdir_def split: option.splits)
        with bad2 have "r \<noteq> None \<longrightarrow> \<not> can_mkdir ?p fs'" by auto
        with keeps_trans[OF k1 k2] ok2 show ?thesis by simp
      qed
    qed
  qed
qed

subsection \<open>The loop\<close>

lemma ready_iff: "ready p fs \<longleftrightarrow> (\<exists>n. walk p fs = Inr n \<and> dir_flags n = Some (True, rwx))"
proof (cases "walk p fs")
  case (Inl e)
  then show ?thesis by (simp add: ready_def)
next
  case (Inr n)
  then show ?thesis by (cases n) (auto simp: ready_def)
qed

lemma refused_iff:
  "refused p fs \<longleftrightarrow>
   (\<not> can_mkdir p fs \<or> (\<exists>n md. walk p fs = Inr n \<and> dir_flags n = Some (False, md)))"
proof (cases "walk p fs")
  case (Inl e)
  then show ?thesis by (simp add: refused_def)
next
  case (Inr n)
  then show ?thesis by (cases n) (auto simp: refused_def)
qed

lemma refused_not_ready: "refused p fs \<Longrightarrow> \<not> ready p fs"
  unfolding ready_iff refused_iff using can_mkdir_directory by fastforce

lemma ready_keeps: "keeps fs fs' \<Longrightarrow> ready p fs \<Longrightarrow> ready p fs'"
  unfolding ready_iff keeps_def by metis

lemma refused_keeps: "keeps fs fs' \<Longrightarrow> refused p fs \<Longrightarrow> refused p fs'"
  unfolding refused_iff keeps_def by metis

lemma ready_put_other: "\<not> prefix r p \<Longrightarrow> ready p fs \<Longrightarrow> ready p (put r v fs)"
  unfolding ready_iff using walk_put_other by metis

lemma refused_put_other: "\<not> prefix r p \<Longrightarrow> refused p fs \<Longrightarrow> refused p (put r v fs)"
  unfolding refused_iff using walk_put_other can_mkdir_put_other by metis

text \<open>One turn of the loop of \<open>setup_directories\<close>: it records \<open>True\<close> and leaves the
  directory ready, or records \<open>False\<close> and leaves the path refused; what holds of the
  other paths, those that do not start with this one, still holds.\<close>

lemma setup_loop_Cons:
  "\<exists>b w1. setup_loop ((name, p) # rest) results w = setup_loop rest (AList.update name b results) w1 \<and>
     (if b then ready p (disk w1) else refused p (disk w1)) \<and>
     (\<forall>p'. \<not> prefix p p' \<longrightarrow>
        (ready p' (disk w) \<longrightarrow> ready p' (disk w1)) \<and>
        (refused p' (disk w) \<longrightarrow> refused p' (disk w1)))"
proof -
  obtain r fs1 where mk: "mkdir_parents p (disk w) = (r, fs1)"
    by (cases "mkdir_parents p (disk w)")
  from mkdir_parents_spec[OF mk] have k: "keeps (disk w) fs1"
    and ok: "r = None \<longrightarrow> (\<exists>n. walk p fs1 = Inr n \<and> dir_flags n \<noteq> None)"
    and bad: "r \<noteq> None \<longrightarrow> \<not> can_mkdir p fs1" by simp_all
  have others1: "\<forall>p'. (ready p' (disk w) \<longrightarrow> ready p' fs1) \<and> (refused p' (disk w) \<longrightarrow> refused p' fs1)"
    using k ready_keeps refused_keeps by blast
  show ?thesis
  proof (cases r)
    case (Some e)
    let ?w1 = "logged (CreateFailed p e) (w\<lparr>disk := fs1\<rparr>)"
    have d: "disk ?w1 = fs1" by (simp add: logged_def)
    have 1: "setup_loop ((name, p) # rest) results w =
             setup_loop rest (AList.update name False results) ?w1"
      using mk Some by simp
    have 2: "refused p (disk ?w1)" using bad Some d by (simp add: refused_def)
    from 1 2 others1 d show ?thesis
      by (intro exI[of _ False] exI[of _ ?w1]) simp
  next
    case None
    with ok obtain n where wn: "walk p fs1 = Inr n" and dn: "dir_flags n \<noteq> None" by blast
    then obtain own md es where n: "n = Dir own md es" by (cases n) simp_all
    show ?thesis
    proof (cases own)
      case False
      let ?w1 = "logged (CreateFailed p EPERM) (w\<lparr>disk := fs1\<rparr>)"
      have d: "disk ?w1 = fs1" by (simp add: logged_def)
      have ch: "chmod p fs1 = Inl EPERM" using wn n False by (simp add: chmod_def)
      have 1: "setup_loop ((name, p) # rest) results w =
               setup_loop rest (AList.update name False results) ?w1"
        using mk None ch by simp
      have 2: "refused p (disk ?w1)" using wn n False d by (simp add: refused_def)
      from 1 2 others1 d show ?thesis
        by (intro exI[of _ False] exI[of _ ?w1]) simp
    next
      case True
      let ?fs2 = "put p (Some (Dir own rwx es)) fs1"
      let ?w1 = "logged (DirectoryReady p) (w\<lparr>disk := ?fs2\<rparr>)"
      have d: "disk ?w1 = ?fs2" by (simp add: logged_def)
      have ch: "chmod p fs1 = Inr ?fs2" using wn n True by (simp add: chmod_def)
      have 1: "setup_loop ((name, p) # rest) results w =
               setup_loop rest (AList.update name True results) ?w1"
        using mk None ch by simp
      have "walk p ?fs2 = Inr (Dir own rwx es)" using wn by (rule walk_put_same)
      then have 2: "ready p (disk ?w1)" using True d by (simp add: ready_def)
      have 3: "\<forall>p'. \<not> prefix p p' \<longrightarrow>
        (ready p' (disk w) \<longrightarrow> ready p' (disk ?w1)) \<and>
        (refused p' (disk w) \<longrightarrow> refused p' (disk ?w1))"
        using others1 ready_put_other refused_put_other unfolding d by blast
      from 1 2 3 show ?thesis
        by (intro exI[of _ True] exI[of _ ?w1]) simp
    qed
  qed
qed

lemma setup_loop_preserves:
  "\<forall>e\<in>set items. \<not> prefix (snd e) p \<Longrightarrow>
   (ready p (disk w) \<longrightarrow> ready p (disk (snd (setup_loop items results w)))) \<and>
   (refused p (disk w) \<longrightarrow> refused p (disk (snd (setup_loop items results w))))"
proof (induction items arbitrary: results w)
  case Nil
  then show ?case by simp
next
  case (Cons a items)
  obtain name q where a: "a = (name, q)" by (cases a)
  from setup_loop_Cons[of name q items results w] obtain b w1 where
    1: "setup_loop ((name, q) # items) results w = setup_loop items (AList.update name b results) w1"
    and 3: "\<forall>p'. \<not> prefix q p' \<longrightarrow>
        (ready p' (disk w) \<longrightarrow> ready p' (disk w1)) \<and>
        (refused p' (disk w) \<longrightarrow> refused p' (disk w1))" by blast
  have nq: "\<not> prefix q p" using Cons.prems a by simp
  have rest: "\<forall>e\<in>set items. \<not> prefix (snd e) p" using Cons.prems by simp
  from Cons.IH[OF rest, of w1 "AList.update name b results"] 3 nq
  show ?case unfolding a 1 by blast
qed

lemma setup_loop_other:
  "name \<notin> fst ` set items \<Longrightarrow>
   map_of (fst (setup_loop items results w)) name = map_of results name"
proof (induction items arbitrary: results w)
  case Nil
  then show ?case by simp
next
  case (Cons a items)
  obtain k q where a: "a = (k, q)" by (cases a)
  from setup_loop_Cons[of k q items results w] obtain b w1 where
    1: "setup_loop ((k, q) # items) results w = setup_loop items (AList.update k b results) w1"
    by blast
  have "name \<noteq> k" "name \<notin> fst ` set items" using Cons.prems a by auto
  with Cons.IH[of "AList.update k b results" w1]
  show ?case unfolding a 1 by (simp add: update_conv')
qed

lemma setup_loop_spec:
  "distinct (map fst items) \<Longrightarrow> creation_order items \<Longrightarrow> (name, p) \<in> set items \<Longrightarrow>
   map_of (fst (setup_loop items results w)) name =
     Some (ready p (disk (snd (setup_loop items results w)))) \<and>
   (\<not> ready p (disk (snd (setup_loop items results w))) \<longrightarrow>
      refused p (disk (snd (setup_loop items results w))))"
proof (induction items arbitrary: results w)
  case Nil
  then show ?case by simp
next
  case (Cons a items)
  obtain k q where a: "a = (k, q)" by (cases a)
  from setup_loop_Cons[of k q items results w] obtain b w1 where
    1: "setup_loop ((k, q) # items) results w = setup_loop items (AList.update k b results) w1"
    and 2: "if b then ready q (disk w1) else refused q (disk w1)" by blast
  let ?R = "setup_loop items (AList.update k b results) w1"
  show ?case
  proof (cases "(name, p) \<in> set items")
    case True
    from Cons.prems a have "distinct (map fst items)" "creation_order items" by simp_all
    from Cons.IH[OF this True, of "AList.update k b results" w1]
    show ?thesis unfolding a 1 .
  next
    case False
    with Cons.prems(3) a have eq: "name = k" "p = q" by simp_all
    from Cons.prems(1) a have "k \<notin> fst ` set items" by simp
    then have m: "map_of (fst ?R) k = Some b"
      using setup_loop_other[of k items "AList.update k b results" w1] by (simp add: update_conv')
    from Cons.prems(2) a have rest: "\<forall>e\<in>set items. \<not> prefix (snd e) q" by simp
    from setup_loop_preserves[OF rest, of w1 "AList.update k b results"]
    have pr: "(ready q (disk w1) \<longrightarrow> ready q (disk (snd ?R))) \<and>
              (refused q (disk w1) \<longrightarrow> refused q (disk (snd ?R)))" .
    show ?thesis
    proof (cases b)
      case True
      with 2 pr have "ready q (disk (snd ?R))" by simp
      with m True show ?thesis unfolding a 1 eq by simp
    next
      case False
      with 2 pr have r: "refused q (disk (snd ?R))" by simp
      then have "\<not> ready q (disk (snd ?R))" by (rule refused_not_ready)
      with m False r show ?thesis unfolding a 1 eq by simp
    qed
  qed
qed

lemma setup_loop_keys:
  "map fst (fst (setup_loop items results w)) =
   foldl (\<lambda>ks k. if k \<in> set ks then ks else ks @ [k]) (map fst results) (map fst items)"
proof (induction items arbitrary: results w)
  case Nil
  then show ?case by simp
next
  case (Cons a items)
  obtain name p where a: "a = (name, p)" by (cases a)
  show ?case
    unfolding a
    by (simp add: Cons.IH update_keys split: prod.splits option.splits sum.splits)
qed

lemma required_dirs_order:
  "distinct (map fst (required_dirs m)) \<and> creation_order (required_dirs m)"
  by (simp add: required_dirs_def)

text \<open>
  C6: \<open>setup_directories\<close> returns, for every manager and every file system, a status
  dictionary whose keys are exactly the five logical names, each once; returning is all
  it can do, an error of \<open>mkdir\<close> or \<open>chmod\<close> being a branch of the loop. The entry of a
  name tells what became of its directory: it is \<open>True\<close> exactly when, in the file
  system the call leaves, the path is a directory owned by the process and readable,
  writable and searchable by it; and when the entry is \<open>False\<close> the path is refused
  there, that is, it cannot be created or it is a directory that belongs to someone
  else. A failure does not stop the loop: with a regular file in the place of the
  research directory, the three entries under it are \<open>False\<close> and the two others are
  created and \<open>True\<close>.
\<close>

theorem setup_directories_complete:
  "map fst (fst (setup_directories m w)) = [''research'', ''source'', ''tex'', ''output'', ''state''] \<and>
   (\<forall>name p. get_path m name = Some p \<longrightarrow>
      map_of (fst (setup_directories m w)) name =
        Some (ready p (disk (snd (setup_directories m w)))) \<and>
      (\<not> ready p (disk (snd (setup_directories m w))) \<longrightarrow>
         refused p (disk (snd (setup_directories m w))))) \<and>
   fst (setup_directories \<lparr>base_dir = [''workspace'']\<rparr> \<lparr>disk = blocked_disk, journal = []\<rparr>) =
     [(''research'', False), (''source'', False), (''tex'', False), (''output'', True), (''state'', True)]"
proof -
  have 1: "map fst (fst (setup_directories m w)) = [''research'', ''source'', ''tex'', ''output'', ''state'']"
    unfolding setup_directories_def setup_loop_keys by (simp add: required_dirs_def)
  have 2: "map_of (fst (setup_directories m w)) name =
        Some (ready p (disk (snd (setup_directories m w)))) \<and>
      (\<not> ready p (disk (snd (setup_directories m w))) \<longrightarrow>
         refused p (disk (snd (setup_directories m w))))"
    if g: "get_path m name = Some p" for name p
  proof -
    from g have "(name, p) \<in> set (required_dirs m)"
      unfolding get_path_def by (rule map_of_SomeD)
    with required_dirs_order[of m] show ?thesis
      unfolding setup_directories_def by (intro setup_loop_spec) simp_all
  qed
  have 3: "fst (setup_directories \<lparr>base_dir = [''workspace'']\<rparr> \<lparr>disk = blocked_disk, journal = []\<rparr>) =
     [(''research'', False), (''source'', False), (''tex'', False), (''output'', True), (''state'', True)]"
    by code_simp
  from 1 2 3 show ?thesis by blast
qed

theorem setup_directories_complete_witness:
  "get_path \<lparr>base_dir = [''workspace'']\<rparr> ''research'' = Some [''workspace'', ''research_dir''] \<and>
   get_path \<lparr>base_dir = [''workspace'']\<rparr> ''source'' = Some [''workspace'', ''research_dir'', ''src''] \<and>
   map_of (fst (setup_directories \<lparr>base_dir = [''workspace'']\<rparr> \<lparr>disk = foreign_disk, journal = []\<rparr>))
     ''research'' = Some False \<and>
   refused [''workspace'', ''research_dir'']
     (disk (snd (setup_directories \<lparr>base_dir = [''workspace'']\<rparr> \<lparr>disk = foreign_disk, journal = []\<rparr>))) \<and>
   map_of (fst (setup_directories \<lparr>base_dir = [''workspace'']\<rparr> \<lparr>disk = foreign_disk, journal = []\<rparr>))
     ''source'' = Some True \<and>
   setup_directories \<lparr>base_dir = [''workspace'']\<rparr> \<lparr>disk = foreign_disk, journal = []\<rparr> =
     ([(''research'', False), (''source'', True), (''tex'', True), (''output'', True), (''state'', True)],
      \<lparr>disk = Dir True rwx [(''workspace'', Dir True rwx
                [(''research_dir'', Dir False rwx [(''src'', Dir True rwx []), (''tex'', Dir True rwx [])]),
                 (''output'', Dir True rwx []), (''state_saves'', Dir True rwx [])])],
       journal = [CreateFailed [''workspace'', ''research_dir''] EPERM,
                  DirectoryReady [''workspace'', ''research_dir'', ''src''],
                  DirectoryReady [''workspace'', ''research_dir'', ''tex''],
                  DirectoryReady [''workspace'', ''output''],
                  DirectoryReady [''workspace'', ''state_saves'']]\<rparr>)"
proof -
  let ?m = "\<lparr>base_dir = [''workspace'']\<rparr>"
  let ?w = "\<lparr>disk = foreign_disk, journal = []\<rparr>"
  let ?fs = "Dir True rwx [(''workspace'', Dir True rwx
                [(''research_dir'', Dir False rwx [(''src'', Dir True rwx []), (''tex'', Dir True rwx [])]),
                 (''output'', Dir True rwx []), (''state_saves'', Dir True rwx [])])]"
  have g1: "get_path ?m ''research'' = Some [''workspace'', ''research_dir'']" by code_simp
  have g2: "get_path ?m ''source'' = Some [''workspace'', ''research_dir'', ''src'']" by code_simp
  have ev: "setup_directories ?m ?w =
     ([(''research'', False), (''source'', True), (''tex'', True), (''output'', True), (''state'', True)],
      \<lparr>disk = ?fs,
       journal = [CreateFailed [''workspace'', ''research_dir''] EPERM,
                  DirectoryReady [''workspace'', ''research_dir'', ''src''],
                  DirectoryReady [''workspace'', ''research_dir'', ''tex''],
                  DirectoryReady [''workspace'', ''output''],
                  DirectoryReady [''workspace'', ''state_saves'']]\<rparr>)"
    by code_simp
  have d: "disk (snd (setup_directories ?m ?w)) = ?fs" unfolding ev by simp
  have nr: "\<not> ready [''workspace'', ''research_dir''] ?fs" by code_simp
  have rs: "ready [''workspace'', ''research_dir'', ''src''] ?fs" by code_simp
  from setup_directories_complete[of ?m ?w] g1
  have a: "map_of (fst (setup_directories ?m ?w)) ''research'' =
             Some (ready [''workspace'', ''research_dir''] (disk (snd (setup_directories ?m ?w)))) \<and>
           (\<not> ready [''workspace'', ''research_dir''] (disk (snd (setup_directories ?m ?w))) \<longrightarrow>
              refused [''workspace'', ''research_dir''] (disk (snd (setup_directories ?m ?w))))"
    by blast
  from setup_directories_complete[of ?m ?w] g2
  have b: "map_of (fst (setup_directories ?m ?w)) ''source'' =
             Some (ready [''workspace'', ''research_dir'', ''src''] (disk (snd (setup_directories ?m ?w))))"
    by blast
  from a nr have 1: "map_of (fst (setup_directories ?m ?w)) ''research'' = Some False"
    and 2: "refused [''workspace'', ''research_dir''] (disk (snd (setup_directories ?m ?w)))"
    unfolding d by simp_all
  from b rs have 3: "map_of (fst (setup_directories ?m ?w)) ''source'' = Some True"
    unfolding d by simp
  from g1 g2 1 2 3 ev show ?thesis by blast
qed


section \<open>The matcher\<close>

lemma star_lazy_any_Some:
  "star_lazy True AnyChar s k = Some r \<Longrightarrow>
   \<exists>i\<le>length s. k (drop i s) = Some r \<and> (\<forall>j<i. k (drop j s) = None)"
proof (induction s)
  case Nil
  then show ?case by simp
next
  case (Cons c cs)
  show ?case
  proof (cases "k (c # cs)")
    case (Some x)
    with Cons.prems have "k (drop 0 (c # cs)) = Some r \<and> (\<forall>j<0. k (drop j (c # cs)) = None)"
      by simp
    then show ?thesis by blast
  next
    case None
    with Cons.prems have "star_lazy True AnyChar cs k = Some r" by simp
    from Cons.IH[OF this] obtain i where
      i: "i \<le> length cs" "k (drop i cs) = Some r" and mn: "\<forall>j<i. k (drop j cs) = None"
      by blast
    have "\<forall>j<Suc i. k (drop j (c # cs)) = None"
    proof (intro allI impI)
      fix j assume "j < Suc i"
      show "k (drop j (c # cs)) = None"
      proof (cases j)
        case 0
        with None show ?thesis by simp
      next
        case (Suc j')
        with \<open>j < Suc i\<close> mn show ?thesis by simp
      qed
    qed
    moreover have "Suc i \<le> length (c # cs)" using i(1) by simp
    moreover have "k (drop (Suc i) (c # cs)) = Some r" using i(2) by simp
    ultimately show ?thesis by blast
  qed
qed

lemma star_lazy_any_None:
  "star_lazy True AnyChar s k = None \<Longrightarrow> k (drop i s) = None"
proof (induction s arbitrary: i)
  case Nil
  then show ?case by simp
next
  case (Cons c cs)
  have here: "k (c # cs) = None"
    using Cons.prems(1) by (cases "k (c # cs)") simp_all
  with Cons.prems(1) have rest: "star_lazy True AnyChar cs k = None" by simp
  show ?case
  proof (cases i)
    case 0
    with here show ?thesis by simp
  next
    case (Suc i')
    with Cons.IH[OF rest, of i'] show ?thesis by simp
  qed
qed

lemma star_greedy_skip:
  "(\<And>c cs. matches_atom d a c \<Longrightarrow> k (c # cs) = None) \<Longrightarrow>
   star_greedy d a s k = k (dropWhile (matches_atom d a) s)"
proof (induction s)
  case Nil
  then show ?case by simp
next
  case (Cons c cs)
  show ?case
  proof (cases "matches_atom d a c")
    case True
    have ih: "star_greedy d a cs k = k (dropWhile (matches_atom d a) cs)"
      using Cons by blast
    show ?thesis
    proof (cases "k (dropWhile (matches_atom d a) cs)")
      case None
      with True ih Cons.prems[OF True] show ?thesis by simp
    next
      case (Some r)
      with True ih show ?thesis by simp
    qed
  next
    case False
    then show ?thesis by simp
  qed
qed

lemma word_atom: "matches_atom d WordChar = is_word"
  by (rule ext) simp

lemma opt_word_star:
  assumes "\<And>c cs. is_word c \<Longrightarrow> run d r (c # cs) g k = None"
  shows "run d (Opt True [Star True WordChar] # r) s g k = run d r (dropWhile is_word s) g k"
proof -
  have inner: "star_greedy d WordChar s (\<lambda>s'. run d r s' g k) = run d r (dropWhile is_word s) g k"
    using star_greedy_skip[of d WordChar "\<lambda>s'. run d r s' g k" s] assms
    by (simp add: word_atom)
  show ?thesis
  proof (cases "run d r (dropWhile is_word s) g k")
    case (Some x)
    with inner show ?thesis by simp
  next
    case None
    have "run d r s g k = None"
    proof (cases s)
      case Nil
      with None show ?thesis by simp
    next
      case (Cons c cs)
      show ?thesis
      proof (cases "is_word c")
        case True
        with Cons assms show ?thesis by simp
      next
        case False
        with Cons None show ?thesis by simp
      qed
    qed
    with None inner show ?thesis by simp
  qed
qed

lemma search_Some:
  "search d re s = Some g \<Longrightarrow>
   \<exists>i\<le>length s. match_at d re (drop i s) = Some g \<and> (\<forall>j<i. match_at d re (drop j s) = None)"
proof (induction s)
  case Nil
  then show ?case by simp
next
  case (Cons c cs)
  show ?case
  proof (cases "match_at d re (c # cs)")
    case (Some x)
    with Cons.prems have "match_at d re (drop 0 (c # cs)) = Some g \<and>
        (\<forall>j<0. match_at d re (drop j (c # cs)) = None)"
      by simp
    then show ?thesis by blast
  next
    case None
    with Cons.prems have "search d re cs = Some g" by simp
    from Cons.IH[OF this] obtain i where
      i: "i \<le> length cs" "match_at d re (drop i cs) = Some g"
      and mn: "\<forall>j<i. match_at d re (drop j cs) = None"
      by blast
    have "\<forall>j<Suc i. match_at d re (drop j (c # cs)) = None"
    proof (intro allI impI)
      fix j assume "j < Suc i"
      show "match_at d re (drop j (c # cs)) = None"
      proof (cases j)
        case 0
        with None show ?thesis by simp
      next
        case (Suc j')
        with \<open>j < Suc i\<close> mn show ?thesis by simp
      qed
    qed
    moreover have "Suc i \<le> length (c # cs)" using i(1) by simp
    moreover have "match_at d re (drop (Suc i) (c # cs)) = Some g" using i(2) by simp
    ultimately show ?thesis by blast
  qed
qed

lemma search_None:
  "search d re s = None \<Longrightarrow> match_at d re (drop i s) = None"
proof (induction s arbitrary: i)
  case Nil
  then show ?case by simp
next
  case (Cons c cs)
  have here: "match_at d re (c # cs) = None"
    using Cons.prems(1) by (cases "match_at d re (c # cs)") simp_all
  with Cons.prems(1) have rest: "search d re cs = None" by simp
  show ?case
  proof (cases i)
    case 0
    with here show ?thesis by simp
  next
    case (Suc i')
    with Cons.IH[OF rest, of i'] show ?thesis by simp
  qed
qed

lemma run_Nil: "run d [] s g k = k s g"
  by simp

lemma run_Atom_Cons:
  "run d (Atom a # r) (c # cs) g k = (if matches_atom d a c then run d r cs g k else None)"
  by simp

lemma run_Atom_Some:
  "run d (Atom a # r) s g k = Some x \<Longrightarrow>
   \<exists>c cs. s = c # cs \<and> matches_atom d a c \<and> run d r cs g k = Some x"
  by (cases s) (auto split: if_splits)

lemma run_Group_lazy:
  "run d (Group n [Star False a] # r) s g k =
   star_lazy d a s (\<lambda>s'. run d r s' (g(n \<mapsto> consumed s s')) k)"
  by simp

declare run.simps [simp del]

lemma closes_Cons: "closes s \<longleftrightarrow> (\<exists>post. s = LF # BQ # BQ # BQ # post)"
  by (simp add: closes_def closing_def fence_def)

lemma closes_run:
  "run True [Atom (Lit LF), Atom (Lit BQ), Atom (Lit BQ), Atom (Lit BQ)] s g (\<lambda>s' g'. Some g') =
   (if closes s then Some g else None)"
proof (cases "closes s")
  case True
  then obtain post where "s = LF # BQ # BQ # BQ # post"
    using closes_Cons by blast
  with True show ?thesis by (simp add: run_Atom_Cons run_Nil)
next
  case False
  have "run True [Atom (Lit LF), Atom (Lit BQ), Atom (Lit BQ), Atom (Lit BQ)] s g (\<lambda>s' g'. Some g') = None"
  proof (rule ccontr)
    assume "run True [Atom (Lit LF), Atom (Lit BQ), Atom (Lit BQ), Atom (Lit BQ)] s g (\<lambda>s' g'. Some g') \<noteq> None"
    then obtain x where
      "run True [Atom (Lit LF), Atom (Lit BQ), Atom (Lit BQ), Atom (Lit BQ)] s g (\<lambda>s' g'. Some g') = Some x"
      by blast
    from run_Atom_Some[OF this] obtain s2 where
      1: "s = LF # s2" and r1: "run True [Atom (Lit BQ), Atom (Lit BQ), Atom (Lit BQ)] s2 g (\<lambda>s' g'. Some g') = Some x"
      by auto
    from run_Atom_Some[OF r1] obtain s3 where
      2: "s2 = BQ # s3" and r2: "run True [Atom (Lit BQ), Atom (Lit BQ)] s3 g (\<lambda>s' g'. Some g') = Some x"
      by auto
    from run_Atom_Some[OF r2] obtain s4 where
      3: "s3 = BQ # s4" and r3: "run True [Atom (Lit BQ)] s4 g (\<lambda>s' g'. Some g') = Some x"
      by auto
    from run_Atom_Some[OF r3] obtain s5 where 4: "s4 = BQ # s5" by auto
    from 1 2 3 4 have "closes s" using closes_Cons by blast
    with False show False by simp
  qed
  with False show ?thesis by simp
qed

lemma tail_word: "is_word c \<Longrightarrow> run True tail_re (c # cs) g k = None"
proof -
  assume "is_word c"
  then have "c \<noteq> LF" using word_not_space[of c] by (auto simp: is_space_def)
  then show ?thesis by (simp add: tail_re_def run_Atom_Cons)
qed

lemma tail_LF:
  "run True tail_re (LF # b) Map.empty (\<lambda>s' g'. Some g') = body_scan b"
  by (simp only: tail_re_def body_scan_def run_Atom_Cons run_Group_lazy closes_run
      matches_atom.simps if_True refl)

lemma tail_Nil: "run True tail_re [] g k = None"
  by (simp add: tail_re_def run.simps)

lemma tail_other: "c \<noteq> LF \<Longrightarrow> run True tail_re (c # cs) g k = None"
  by (simp add: tail_re_def run.simps)

lemma consumed_drop: "i \<le> length b \<Longrightarrow> consumed b (drop i b) = take i b"
  by (simp add: consumed_def)

lemma body_scan_Some:
  assumes "body_scan b = Some g"
  shows "\<exists>i\<le>length b. g = [1 \<mapsto> take i b] \<and> closes (drop i b) \<and> (\<forall>j<i. \<not> closes (drop j b))"
proof -
  let ?k = "\<lambda>s'. if closes s' then Some [(1::nat) \<mapsto> consumed b s'] else None"
  from assms have "star_lazy True AnyChar b ?k = Some g" by (simp add: body_scan_def)
  from star_lazy_any_Some[OF this] obtain i where
    i: "i \<le> length b" "?k (drop i b) = Some g" and mn: "\<forall>j<i. ?k (drop j b) = None"
    by blast
  from i(2) have c: "closes (drop i b)" by (cases "closes (drop i b)") simp_all
  with i have g: "g = [1 \<mapsto> take i b]" by (simp add: consumed_drop)
  have "\<forall>j<i. \<not> closes (drop j b)"
  proof (intro allI impI)
    fix j assume "j < i"
    with mn have "?k (drop j b) = None" by blast
    then show "\<not> closes (drop j b)" by (cases "closes (drop j b)") simp_all
  qed
  with i(1) g c show ?thesis by blast
qed

lemma body_scan_None:
  assumes "body_scan b = None"
  shows "\<not> closes (drop i b)"
proof -
  let ?k = "\<lambda>s'. if closes s' then Some [(1::nat) \<mapsto> consumed b s'] else None"
  from assms have "star_lazy True AnyChar b ?k = None" by (simp add: body_scan_def)
  from star_lazy_any_None[OF this, of i] show ?thesis
    by (cases "closes (drop i b)") simp_all
qed

lemma LF_not_word: "\<not> is_word LF"
  using word_not_space[of LF] by (auto simp: is_space_def)

lemma run_lits:
  "run d (map (\<lambda>c. Atom (Lit c)) l) s g k =
   (if prefix l s then k (drop (length l) s) g else None)"
proof (induction l arbitrary: s)
  case Nil
  then show ?case by (simp add: run_Nil)
next
  case (Cons a l)
  show ?case
  proof (cases s)
    case Nil
    then show ?thesis by (simp add: run.simps)
  next
    case (Cons c cs)
    with Cons.IH[of cs] show ?thesis by (simp add: run_Atom_Cons)
  qed
qed

lemma run_Opt_greedy:
  "run d (Opt True b # r) s g k =
   (case run d b s g (\<lambda>s' g'. run d r s' g' k) of Some x \<Rightarrow> Some x | None \<Rightarrow> run d r s g k)"
  by (simp add: run.simps)

lemma opt_lits:
  assumes "l \<noteq> []" "hd l \<noteq> LF"
  shows "run True (Opt True (map (\<lambda>c. Atom (Lit c)) l) # tail_re) s g k =
         run True tail_re (if prefix l s then drop (length l) s else s) g k"
proof (cases "prefix l s")
  case False
  then show ?thesis by (simp add: run_Opt_greedy run_lits)
next
  case True
  from assms(1) obtain a l' where l: "l = a # l'" by (cases l) auto
  with True obtain cs where s: "s = a # cs" by (cases s) auto
  from l assms(2) have "a \<noteq> LF" by simp
  then have here: "run True tail_re s g k = None" unfolding s by (rule tail_other)
  show ?thesis
  proof (cases "run True tail_re (drop (length l) s) g k")
    case None
    with True here show ?thesis by (simp add: run_Opt_greedy run_lits)
  next
    case (Some x)
    with True show ?thesis by (simp add: run_Opt_greedy run_lits)
  qed
qed

lemma opt_skip:
  assumes "plain_language language"
  shows "run True (Opt True (opt_re language) # tail_re) s g k =
         run True tail_re (skip language s) g k"
proof (cases "language = None \<or> language = Some []")
  case True
  then have e: "opt_re language = [Star True WordChar]" "skip language s = dropWhile is_word s"
    by (auto simp: opt_re_def skip_def)
  have "run True (Opt True [Star True WordChar] # tail_re) s g k =
        run True tail_re (dropWhile is_word s) g k"
    by (rule opt_word_star) (rule tail_word)
  with e show ?thesis by simp
next
  case False
  then obtain l where l: "language = Some l" "l \<noteq> []" by (cases language) auto
  with assms have h: "hd l \<noteq> LF" by (simp add: plain_language_def)
  have "run True (Opt True (map (\<lambda>c. Atom (Lit c)) l) # tail_re) s g k =
        run True tail_re (if prefix l s then drop (length l) s else s) g k"
    using l(2) h by (rule opt_lits)
  moreover have "opt_re language = map (\<lambda>c. Atom (Lit c)) l"
    using l by (simp add: opt_re_def)
  moreover have "skip language s = (if prefix l s then drop (length l) s else s)"
    using l by (simp add: skip_def)
  ultimately show ?thesis by (simp only:)
qed

lemma match_fence:
  assumes "plain_language language"
  shows "match_at True (fence_re language) (fence @ s1) =
         run True tail_re (skip language s1) Map.empty (\<lambda>s' g'. Some g')"
proof -
  have "match_at True (fence_re language) (fence @ s1) =
        run True (Opt True (opt_re language) # tail_re) s1 Map.empty (\<lambda>s' g'. Some g')"
    by (simp add: match_at_def fence_re_def fence_def run_Atom_Cons)
  with opt_skip[OF assms] show ?thesis by simp
qed

lemma match_no_fence:
  "\<not> (\<exists>s1. s = fence @ s1) \<Longrightarrow> match_at True (fence_re language) s = None"
proof (rule ccontr)
  assume n: "\<not> (\<exists>s1. s = fence @ s1)" and "match_at True (fence_re language) s \<noteq> None"
  then obtain x where
    r0: "run True (Atom (Lit BQ) # Atom (Lit BQ) # Atom (Lit BQ) # Opt True (opt_re language) # tail_re)
        s Map.empty (\<lambda>s' g'. Some g') = Some x"
    by (auto simp: match_at_def fence_re_def)
  from run_Atom_Some[OF r0] obtain s2 where
    1: "s = BQ # s2" and r1: "run True (Atom (Lit BQ) # Atom (Lit BQ) # Opt True (opt_re language) # tail_re)
        s2 Map.empty (\<lambda>s' g'. Some g') = Some x"
    by auto
  from run_Atom_Some[OF r1] obtain s3 where
    2: "s2 = BQ # s3" and r2: "run True (Atom (Lit BQ) # Opt True (opt_re language) # tail_re)
        s3 Map.empty (\<lambda>s' g'. Some g') = Some x"
    by auto
  from run_Atom_Some[OF r2] obtain s4 where 3: "s3 = BQ # s4" by auto
  from 1 2 3 have "s = fence @ s4" by (simp add: fence_def)
  with n show False by blast
qed

lemma skip_tag:
  assumes "plain_language language" "tag_allowed language tag"
  shows "skip language (tag @ LF # rest) = LF # rest"
proof (cases "language = None \<or> language = Some []")
  case True
  with assms(2) have w: "\<forall>c\<in>set tag. is_word c" by (auto simp: tag_allowed_def)
  from True have "skip language (tag @ LF # rest) = dropWhile is_word (tag @ LF # rest)"
    by (auto simp: skip_def)
  also have "\<dots> = LF # rest" using w LF_not_word by (simp add: dropWhile_append3)
  finally show ?thesis .
next
  case False
  then obtain l where l: "language = Some l" "l \<noteq> []" by (cases language) auto
  with assms(1) have h: "hd l \<noteq> LF" by (simp add: plain_language_def)
  from l assms(2) have "tag = l \<or> tag = []" by (simp add: tag_allowed_def)
  then show ?thesis
  proof
    assume "tag = l"
    with l show ?thesis by (simp add: skip_def)
  next
    assume t: "tag = []"
    from l(2) h have "\<not> prefix l (LF # rest)" by (cases l) auto
    with l t show ?thesis by (simp add: skip_def)
  qed
qed

lemma skip_LF:
  assumes "skip language s1 = LF # b"
  shows "\<exists>tag. tag_allowed language tag \<and> s1 = tag @ LF # b"
proof (cases "language = None \<or> language = Some []")
  case True
  with assms have d: "dropWhile is_word s1 = LF # b" by (auto simp: skip_def)
  have "takeWhile is_word s1 @ dropWhile is_word s1 = s1" by simp
  with d have "s1 = takeWhile is_word s1 @ LF # b" by (simp only:)
  moreover have "\<forall>c\<in>set (takeWhile is_word s1). is_word c"
    by (blast dest: set_takeWhileD)
  then have "tag_allowed language (takeWhile is_word s1)"
    using True by (auto simp: tag_allowed_def)
  ultimately show ?thesis by blast
next
  case False
  then obtain l where l: "language = Some l" "l \<noteq> []" by (cases language) auto
  show ?thesis
  proof (cases "prefix l s1")
    case True
    then obtain r where r: "s1 = l @ r" by (auto simp: prefix_def)
    with l assms have "r = LF # b" by (simp add: skip_def)
    with r have "s1 = l @ LF # b" by simp
    moreover have "tag_allowed language l" using l by (simp add: tag_allowed_def)
    ultimately show ?thesis by blast
  next
    case False
    with l assms have "s1 = [] @ LF # b" by (simp add: skip_def)
    moreover have "tag_allowed language []" using l by (simp add: tag_allowed_def)
    ultimately show ?thesis by blast
  qed
qed

lemma block_at_split:
  assumes "plain_language language" "block_at language s body"
  shows "\<exists>s1 post. s = fence @ s1 \<and> skip language s1 = LF # body @ closing @ post"
proof -
  from assms(2) obtain tag post where
    s: "s = fence @ tag @ [LF] @ body @ [LF] @ fence @ post" and w: "tag_allowed language tag"
    unfolding block_at_def by blast
  from skip_tag[OF assms(1) w]
  have "skip language (tag @ LF # body @ closing @ post) = LF # body @ closing @ post" .
  with s show ?thesis by (auto simp: closing_def)
qed

lemma match_block_Some:
  assumes pl: "plain_language language"
    and m: "match_at True (fence_re language) s = Some g"
  shows "\<exists>body. g 1 = Some body \<and> block_at language s body \<and>
           (\<forall>body'. block_at language s body' \<longrightarrow> length body \<le> length body')"
proof -
  from m match_no_fence[of s language] obtain s1 where s: "s = fence @ s1" by force
  let ?t = "skip language s1"
  from m s have r: "run True tail_re ?t Map.empty (\<lambda>s' g'. Some g') = Some g"
    by (simp add: match_fence[OF pl])
  have "\<exists>b. ?t = LF # b"
  proof (cases ?t)
    case Nil
    have "run True tail_re [] Map.empty (\<lambda>s' g'. Some g') = None" by (rule tail_Nil)
    with r Nil show ?thesis by simp
  next
    case (Cons c cs)
    show ?thesis
    proof (cases "c = LF")
      case True
      with Cons show ?thesis by blast
    next
      case False
      then have "run True tail_re (c # cs) Map.empty (\<lambda>s' g'. Some g') = None"
        by (rule tail_other)
      with r Cons show ?thesis by simp
    qed
  qed
  then obtain b where t: "?t = LF # b" by blast
  with r have "body_scan b = Some g" by (simp add: tail_LF)
  from body_scan_Some[OF this] obtain i where
    i: "i \<le> length b" and g: "g = [1 \<mapsto> take i b]" and c: "closes (drop i b)"
    and mn: "\<forall>j<i. \<not> closes (drop j b)" by blast
  from c obtain post where post: "drop i b = closing @ post" by (auto simp: closes_def)
  have e2: "take i b @ closing @ post = b"
    using post append_take_drop_id[of i b] by (simp only:)
  from skip_LF[OF t] obtain tag where
    tag: "tag_allowed language tag" and e1: "s1 = tag @ LF # b" by blast
  have "fence @ tag @ [LF] @ take i b @ [LF] @ fence @ post =
        fence @ (tag @ LF # (take i b @ closing @ post))"
    by (simp add: closing_def)
  also have "\<dots> = s" by (simp only: e2 e1 s)
  finally have "s = fence @ tag @ [LF] @ take i b @ [LF] @ fence @ post"
    by (rule sym)
  with tag have blk: "block_at language s (take i b)" unfolding block_at_def by blast
  have mini: "\<forall>body'. block_at language s body' \<longrightarrow> length (take i b) \<le> length body'"
  proof (intro allI impI)
    fix body' assume "block_at language s body'"
    from block_at_split[OF pl this] obtain s1' post' where
      "s = fence @ s1'" and d: "skip language s1' = LF # body' @ closing @ post'" by blast
    with s have "s1' = s1" by simp
    with d t have b': "b = body' @ closing @ post'" by simp
    then have "closes (drop (length body') b)" by (simp add: closes_def)
    with mn have "\<not> length body' < i" by blast
    then show "length (take i b) \<le> length body'" by simp
  qed
  from g blk mini show ?thesis by auto
qed

lemma match_block_None:
  assumes pl: "plain_language language"
    and m: "match_at True (fence_re language) s = None"
  shows "\<not> block_at language s body"
proof
  assume "block_at language s body"
  from block_at_split[OF pl this] obtain s1 post where
    s: "s = fence @ s1" and d: "skip language s1 = LF # body @ closing @ post" by blast
  from m s d have "body_scan (body @ closing @ post) = None"
    by (simp add: match_fence[OF pl] tail_LF)
  from body_scan_None[OF this, of "length body"] show False by (simp add: closes_def)
qed


section \<open>extract\_code\_block and extract\_command\<close>

lemma parse_plain_char:
  assumes "\<not> metachar c"
  shows "parse (c # cs) stack items groups = parse cs stack (items @ [Atom (Lit c)]) groups"
proof -
  from assms have "c \<noteq> BSL" "c \<noteq> CHR ''(''" "c \<noteq> CHR '')''" "c \<noteq> CHR ''*''" "c \<noteq> CHR ''?''"
    "c \<noteq> CHR ''.''" "c \<notin> set ''[{+^$|''"
    by (auto simp: metachar_def)
  then show ?thesis by (simp only: parse.simps if_False simp_thms)
qed

lemma parse_plain:
  "\<forall>c\<in>set l. \<not> metachar c \<Longrightarrow>
   parse (l @ rest) stack items groups =
   parse rest stack (items @ map (\<lambda>c. Atom (Lit c)) l) groups"
proof (induction l arbitrary: items)
  case Nil
  then show ?case by simp
next
  case (Cons a l)
  then have "parse ((a # l) @ rest) stack items groups =
             parse (l @ rest) stack (items @ [Atom (Lit a)]) groups"
    by (simp add: parse_plain_char del: parse.simps)
  also have "\<dots> = parse rest stack ((items @ [Atom (Lit a)]) @ map (\<lambda>c. Atom (Lit c)) l) groups"
    using Cons.prems by (intro Cons.IH) simp
  finally show ?case by simp
qed

lemma compile_word_pattern:
  "compile (fence @ ''(?:'' @ [BSL, CHR ''w'', CHR ''*''] @ '')?'' @ [BSL, CHR ''n''] @ ''(.*?)''
            @ [BSL, CHR ''n''] @ fence) =
   Returns (Atom (Lit BQ) # Atom (Lit BQ) # Atom (Lit BQ) # Opt True [Star True WordChar] # tail_re, 1)"
  by (simp add: compile_def repeat_def close_group_def fence_def tail_re_def)

lemma compile_tag_pattern:
  assumes "\<forall>c\<in>set l. \<not> metachar c"
  shows "compile (fence @ ''(?:'' @ l @ '')?'' @ [BSL, CHR ''n''] @ ''(.*?)''
            @ [BSL, CHR ''n''] @ fence) =
   Returns (Atom (Lit BQ) # Atom (Lit BQ) # Atom (Lit BQ) #
            Opt True (map (\<lambda>c. Atom (Lit c)) l) # tail_re, 1)"
proof -
  let ?tail = "'')?'' @ [BSL, CHR ''n''] @ ''(.*?)'' @ [BSL, CHR ''n''] @ fence"
  let ?st = "[Frame None [Atom (Lit BQ), Atom (Lit BQ), Atom (Lit BQ)]]"
  have "compile (fence @ ''(?:'' @ l @ ?tail) = parse (l @ ?tail) ?st [] 0"
    by (simp add: compile_def fence_def)
  also have "\<dots> = parse ?tail ?st ([] @ map (\<lambda>c. Atom (Lit c)) l) 0"
    using assms by (rule parse_plain)
  also have "\<dots> = Returns (Atom (Lit BQ) # Atom (Lit BQ) # Atom (Lit BQ) #
            Opt True (map (\<lambda>c. Atom (Lit c)) l) # tail_re, 1)"
    by (simp add: repeat_def close_group_def fence_def tail_re_def)
  finally show ?thesis by simp
qed

lemma compile_code_block_pattern:
  assumes "plain_language language"
  shows "compile (code_block_pattern language) = Returns (fence_re language, 1)"
proof (cases "language = None \<or> language = Some []")
  case True
  then have "code_block_pattern language =
     fence @ ''(?:'' @ [BSL, CHR ''w'', CHR ''*''] @ '')?'' @ [BSL, CHR ''n''] @ ''(.*?)''
            @ [BSL, CHR ''n''] @ fence"
    by (auto simp: code_block_pattern_def)
  moreover from True have "fence_re language =
     Atom (Lit BQ) # Atom (Lit BQ) # Atom (Lit BQ) # Opt True [Star True WordChar] # tail_re"
    by (auto simp: fence_re_def opt_re_def)
  ultimately show ?thesis using compile_word_pattern by (simp only:)
next
  case False
  then obtain l where l: "language = Some l" "l \<noteq> []" by (cases language) auto
  with assms have p: "\<forall>c\<in>set l. \<not> metachar c" by (simp add: plain_language_def)
  from l have "code_block_pattern language =
     fence @ ''(?:'' @ l @ '')?'' @ [BSL, CHR ''n''] @ ''(.*?)'' @ [BSL, CHR ''n''] @ fence"
    by (simp add: code_block_pattern_def)
  moreover from l have "fence_re language =
     Atom (Lit BQ) # Atom (Lit BQ) # Atom (Lit BQ) # Opt True (map (\<lambda>c. Atom (Lit c)) l) # tail_re"
    by (simp add: fence_re_def opt_re_def)
  ultimately show ?thesis using compile_tag_pattern[OF p] by (simp only:)
qed

lemma extract_code_block_search:
  assumes "plain_language language"
  shows "extract_code_block text language =
     Returns (case search True (fence_re language) text of None \<Rightarrow> None | Some g \<Rightarrow> g 1)"
  by (simp add: extract_code_block_def re_search_group1_def
      compile_code_block_pattern[OF assms] split: option.splits)

lemma fenced_block_at:
  "fenced_block language text pre tag body post \<Longrightarrow> block_at language (drop (length pre) text) body"
  unfolding fenced_block_def block_at_def by auto

lemma block_at_fenced:
  assumes "i \<le> length text" "block_at language (drop i text) body"
  shows "\<exists>tag post. fenced_block language text (take i text) tag body post"
proof -
  from assms(2) obtain tag post where
    d: "drop i text = fence @ tag @ [LF] @ body @ [LF] @ fence @ post"
    and w: "tag_allowed language tag"
    unfolding block_at_def by blast
  have "text = take i text @ drop i text" by simp
  with d have "text = take i text @ fence @ tag @ [LF] @ body @ [LF] @ fence @ post" by (simp only:)
  with w show ?thesis unfolding fenced_block_def by blast
qed

lemma search_code_group:
  assumes "plain_language language" "search True (fence_re language) text = Some g"
  shows "\<exists>body. g 1 = Some body"
proof -
  from search_Some[OF assms(2)] obtain i where
    "match_at True (fence_re language) (drop i text) = Some g" by blast
  from match_block_Some[OF assms(1) this] show ?thesis by blast
qed

lemma extract_Some:
  assumes pl: "plain_language language"
    and ex: "extract_code_block text language = Returns (Some body)"
  shows "\<exists>pre tag post. fenced_block language text pre tag body post \<and>
          (\<forall>pre' tag' body' post'. fenced_block language text pre' tag' body' post' \<longrightarrow>
             length pre \<le> length pre' \<and> (length pre' = length pre \<longrightarrow> length body \<le> length body'))"
proof -
  from ex obtain g where sg: "search True (fence_re language) text = Some g" and g1: "g 1 = Some body"
    by (auto simp: extract_code_block_search[OF pl] split: option.splits)
  from search_Some[OF sg] obtain i where
    i: "i \<le> length text" and m: "match_at True (fence_re language) (drop i text) = Some g"
    and mn: "\<forall>j<i. match_at True (fence_re language) (drop j text) = None" by blast
  from match_block_Some[OF pl m] g1 have
    blk: "block_at language (drop i text) body"
    and sh: "\<forall>body'. block_at language (drop i text) body' \<longrightarrow> length body \<le> length body'"
    by auto
  from block_at_fenced[OF i blk] obtain tag post where
    fb: "fenced_block language text (take i text) tag body post" by blast
  have len: "length (take i text) = i" using i by simp
  have "\<forall>pre' tag' body' post'. fenced_block language text pre' tag' body' post' \<longrightarrow>
             length (take i text) \<le> length pre' \<and>
             (length pre' = length (take i text) \<longrightarrow> length body \<le> length body')"
  proof (intro allI impI)
    fix pre' tag' body' post'
    assume f: "fenced_block language text pre' tag' body' post'"
    then have b': "block_at language (drop (length pre') text) body'" by (rule fenced_block_at)
    have 1: "i \<le> length pre'"
    proof (rule ccontr)
      assume "\<not> i \<le> length pre'"
      with mn have "match_at True (fence_re language) (drop (length pre') text) = None" by simp
      from match_block_None[OF pl this] b' show False by blast
    qed
    have 2: "length pre' = i \<longrightarrow> length body \<le> length body'"
      using b' sh by auto
    from 1 2 len
    show "length (take i text) \<le> length pre' \<and>
          (length pre' = length (take i text) \<longrightarrow> length body \<le> length body')"
      by simp
  qed
  with fb show ?thesis by blast
qed

lemma extract_None:
  assumes pl: "plain_language language"
    and ex: "extract_code_block text language = Returns None"
  shows "\<not> fenced_block language text pre tag body post"
proof
  assume f: "fenced_block language text pre tag body post"
  then have b: "block_at language (drop (length pre) text) body" by (rule fenced_block_at)
  have "search True (fence_re language) text = None"
  proof (cases "search True (fence_re language) text")
    case None
    then show ?thesis .
  next
    case (Some g)
    from search_code_group[OF pl Some] obtain b where "g 1 = Some b" by blast
    with Some ex show ?thesis by (simp add: extract_code_block_search[OF pl])
  qed
  from search_None[OF this, of "length pre"] match_block_None[OF pl] b show False by blast
qed

lemma plain_None: "plain_language None"
  by (simp add: plain_language_def)

lemma plain_python: "plain_language (Some ''python'')"
  by (simp add: plain_language_def metachar_def)

lemma extract_example:
  "extract_code_block example_text None = Returns (Some ''print(1)'')"
proof -
  have "(case search True (fence_re None) example_text of
        None \<Rightarrow> None | Some g \<Rightarrow> g 1) = Some ''print(1)''"
    by code_simp
  then show ?thesis by (simp only: extract_code_block_search[OF plain_None])
qed

lemma extract_example_python:
  "extract_code_block example_text (Some ''python'') = Returns (Some ''print(1)'')"
proof -
  have "(case search True (fence_re (Some ''python'')) example_text of
        None \<Rightarrow> None | Some g \<Rightarrow> g 1) = Some ''print(1)''"
    by code_simp
  then show ?thesis by (simp only: extract_code_block_search[OF plain_python])
qed

text \<open>
  What \<open>extract_code_block\<close> computes for a language that is absent or plain. A fence
  opens a match only when its tag is one the pattern allows: any run of word characters
  when no language is given, the language itself or nothing when a plain language is
  given. The call returns. When it returns a body, the text holds such a fence, the
  tag, a line feed, that body kept as it stands with its line feeds, a line feed and a
  fence; no such match starts earlier in the text, and none that starts at the same
  place has a shorter body. When it returns \<open>None\<close>, the text holds no such match. On
  the text of the example it returns \<open>print(1)\<close>.
\<close>

lemma extract_code_block_leftmost_match:
  assumes "plain_language language"
  shows "(\<exists>r. extract_code_block text language = Returns r) \<and>
   (\<forall>body. extract_code_block text language = Returns (Some body) \<longrightarrow>
      (\<exists>pre tag post. fenced_block language text pre tag body post \<and>
         (\<forall>pre' tag' body' post'. fenced_block language text pre' tag' body' post' \<longrightarrow>
             length pre \<le> length pre' \<and>
             (length pre' = length pre \<longrightarrow> length body \<le> length body')))) \<and>
   (extract_code_block text language = Returns None \<longrightarrow>
      (\<forall>pre tag body post. \<not> fenced_block language text pre tag body post)) \<and>
   extract_code_block (''text '' @ fence @ ''python'' @ [LF] @ ''print(1)'' @ [LF] @ fence @ '' more'') None
     = Returns (Some ''print(1)'')"
proof -
  have 1: "\<exists>r. extract_code_block text language = Returns r"
    using extract_code_block_search[OF assms] by blast
  have 2: "\<forall>body. extract_code_block text language = Returns (Some body) \<longrightarrow>
      (\<exists>pre tag post. fenced_block language text pre tag body post \<and>
         (\<forall>pre' tag' body' post'. fenced_block language text pre' tag' body' post' \<longrightarrow>
             length pre \<le> length pre' \<and>
             (length pre' = length pre \<longrightarrow> length body \<le> length body')))"
    using extract_Some[OF assms] by blast
  have 3: "extract_code_block text language = Returns None \<longrightarrow>
      (\<forall>pre tag body post. \<not> fenced_block language text pre tag body post)"
    using extract_None[OF assms] by blast
  have 4: "extract_code_block (''text '' @ fence @ ''python'' @ [LF] @ ''print(1)'' @ [LF] @ fence @ '' more'') None
     = Returns (Some ''print(1)'')"
    using extract_example by (simp only: example_text_def)
  from 1 2 3 4 show ?thesis by blast
qed

lemma extract_code_block_leftmost_match_example:
  "plain_language (Some ''python'') \<and>
   extract_code_block example_text (Some ''python'') = Returns (Some ''print(1)'') \<and>
   (\<exists>pre tag post. fenced_block (Some ''python'') example_text pre tag ''print(1)'' post)"
proof -
  from extract_code_block_leftmost_match[OF plain_python, of example_text] extract_example_python
  have "\<exists>pre tag post. fenced_block (Some ''python'') example_text pre tag ''print(1)'' post"
    by blast
  with plain_python extract_example_python show ?thesis by blast
qed

text \<open>
  C8, on the code: \<open>extract_code_block\<close> does not return the content of the first
  fenced block, and what it returns need not be the content of any block. The tag slot
  of its pattern takes word characters only (or the language given, or nothing), so a
  fence with another tag is not seen as an opening fence and the next fence of the text,
  the one that closes that block, is taken for one. In the first text the first block is
  tagged \<open>c++\<close> and no language is given: the result is the line \<open>Done.\<close> that stands
  between the two blocks, outside both, not the content \<open>int x;\<close> of the first block.
  In the second text the language \<open>python\<close> is asked for and the first block is tagged
  \<open>js\<close>: the result starts at the closing fence of that block and has the opening
  fence of the \<open>python\<close> block in it.
\<close>

theorem extract_code_block_returns_unfenced_text:
  "extract_code_block
     (fence @ ''c++'' @ [LF] @ ''int x;'' @ [LF] @ fence @ [LF] @ ''Done.'' @ [LF]
      @ fence @ ''sh'' @ [LF] @ ''ls'' @ [LF] @ fence) None
   = Returns (Some ''Done.'') \<and>
   extract_code_block
     (fence @ ''js'' @ [LF] @ ''let a;'' @ [LF] @ fence @ [LF]
      @ fence @ ''python'' @ [LF] @ ''print(1)'' @ [LF] @ fence) (Some ''python'')
   = Returns (Some (fence @ ''python'' @ [LF] @ ''print(1)''))"
proof -
  have "(case search True (fence_re None)
     (fence @ ''c++'' @ [LF] @ ''int x;'' @ [LF] @ fence @ [LF] @ ''Done.'' @ [LF]
      @ fence @ ''sh'' @ [LF] @ ''ls'' @ [LF] @ fence) of
        None \<Rightarrow> None | Some g \<Rightarrow> g 1) = Some ''Done.''"
    by code_simp
  then have 1: "extract_code_block
     (fence @ ''c++'' @ [LF] @ ''int x;'' @ [LF] @ fence @ [LF] @ ''Done.'' @ [LF]
      @ fence @ ''sh'' @ [LF] @ ''ls'' @ [LF] @ fence) None
   = Returns (Some ''Done.'')"
    by (simp only: extract_code_block_search[OF plain_None])
  have "(case search True (fence_re (Some ''python''))
     (fence @ ''js'' @ [LF] @ ''let a;'' @ [LF] @ fence @ [LF]
      @ fence @ ''python'' @ [LF] @ ''print(1)'' @ [LF] @ fence) of
        None \<Rightarrow> None | Some g \<Rightarrow> g 1) = Some (fence @ ''python'' @ [LF] @ ''print(1)'')"
    by code_simp
  then have 2: "extract_code_block
     (fence @ ''js'' @ [LF] @ ''let a;'' @ [LF] @ fence @ [LF]
      @ fence @ ''python'' @ [LF] @ ''print(1)'' @ [LF] @ fence) (Some ''python'')
   = Returns (Some (fence @ ''python'' @ [LF] @ ''print(1)''))"
    by (simp only: extract_code_block_search[OF plain_python])
  from 1 2 show ?thesis by simp
qed

text \<open>
  C1, on the code: \<open>extract_command\<close> and \<open>extract_code_block\<close> put the caller's tag
  into the pattern as it is, and nothing catches what \<open>re.search\<close> raises. With the tag
  \<open>(\<close> the pattern has a parenthesis that is never closed, and both calls raise
  \<open>re.error\<close> (missing parenthesis) instead of returning. It is the same tag slot of
  the pattern that makes \<open>extract_code_block\<close> pass over a block, as shown above.
\<close>

theorem extract_command_raises:
  "extract_command ''x'' ''('' = Raises (ReError MissingParen) \<and>
   extract_code_block ''x'' (Some ''('') = Raises (ReError MissingParen)"
  by (simp add: extract_command_def command_pattern_def extract_code_block_def
      code_block_pattern_def re_search_group1_def compile_def repeat_def close_group_def fence_def)

end
